theory Spec2Isabelle
  imports Main
begin

section \<open>The sudoku solver of controllers/sudoku-solver.js\<close>

text \<open>
  A shallow embedding of the class \<open>SudokuSolver\<close> and of the two coordinate helpers of
  \<^verbatim>\<open>controllers/sudoku-solver.js\<close>.

  Conventions of the model.
  \<^item> A JavaScript string is a \<open>string\<close> (a list of characters); a one-character string,
    which is what indexing a string yields, is a \<open>char\<close>, and \<open>undefined\<close> (an index
    out of range) is \<open>None\<close>.
  \<^item> The solver's working array holds one-character strings: the characters of the
    spread puzzle string and the candidates \<^verbatim>\<open>`${v}`\<close> for \<open>v\<close> from 1 to 9. It is a
    \<open>char list\<close>. The type \<open>puzzle\<close> says which of the two a placement check received,
    because \<^verbatim>\<open>slice\<close>, \<^verbatim>\<open>indexOf\<close> and \<^verbatim>\<open>includes\<close> differ between strings and arrays.
  \<^item> The \<open>value\<close> parameter of the placement checks only ever occurs as
    \<^verbatim>\<open>`${value}`\<close>; the model's parameter is that string. For a digit \<open>d\<close> from 0 to 9,
    given as a number or as a one-character string, it is the one character of \<open>d\<close>.
  \<^item> A row letter is one character, a column number an integer, a cell index a natural
    number.
  \<^item> An uncaught \<^verbatim>\<open>TypeError\<close> is the value \<open>Inl TypeError\<close>.
\<close>

subsection \<open>Strings and arrays\<close>

datatype exn = TypeError

datatype puzzle = Str string | Arr "char list"

fun cells :: "puzzle \<Rightarrow> char list" where
  "cells (Str s) = s"
| "cells (Arr a) = a"

text \<open>\<^verbatim>\<open>xs[i]\<close>: the element, or \<open>undefined\<close> out of range.\<close>

definition at :: "'a list \<Rightarrow> nat \<Rightarrow> 'a option" where
  "at xs i = (if i < length xs then Some (xs ! i) else None)"

text \<open>\<^verbatim>\<open>xs.slice(b, e)\<close> and \<^verbatim>\<open>xs.slice(b)\<close>, with negative positions counted from the end.\<close>

definition clampPos :: "nat \<Rightarrow> int \<Rightarrow> nat" where
  "clampPos n k = (if k < 0 then nat (max (int n + k) 0) else min (nat k) n)"

definition slice :: "'a list \<Rightarrow> int \<Rightarrow> int \<Rightarrow> 'a list" where
  "slice xs b e = take (clampPos (length xs) e - clampPos (length xs) b)
                       (drop (clampPos (length xs) b) xs)"

definition sliceFrom :: "'a list \<Rightarrow> int \<Rightarrow> 'a list" where
  "sliceFrom xs b = drop (clampPos (length xs) b) xs"

text \<open>\<^verbatim>\<open>xs.indexOf(x)\<close> on an array, or on a string with a one-character needle: the first
  position of \<open>x\<close>, or -1.\<close>

fun indexOf :: "'a list \<Rightarrow> 'a \<Rightarrow> int" where
  "indexOf [] x = -1"
| "indexOf (y # ys) x =
     (if y = x then 0 else (let k = indexOf ys x in if k < 0 then -1 else k + 1))"

text \<open>\<^verbatim>\<open>s.includes(needle)\<close> on a string: \<open>needle\<close> occurs as a substring.\<close>

fun startsWith :: "string \<Rightarrow> string \<Rightarrow> bool" where
  "startsWith s [] = True"
| "startsWith [] (n # ns) = False"
| "startsWith (c # cs) (n # ns) = (c = n \<and> startsWith cs ns)"

fun strIncludes :: "string \<Rightarrow> string \<Rightarrow> bool" where
  "strIncludes [] needle = (needle = [])"
| "strIncludes (c # cs) needle = (startsWith (c # cs) needle \<or> strIncludes cs needle)"

text \<open>\<^verbatim>\<open>a.includes(v)\<close> on an array of cells, some of them possibly \<open>undefined\<close>: an element
  is strictly equal to the string \<open>v\<close>.\<close>

definition arrIncludes :: "char option list \<Rightarrow> string \<Rightarrow> bool" where
  "arrIncludes a v = list_ex (\<lambda>c. case c of None \<Rightarrow> False | Some d \<Rightarrow> [d] = v) a"

text \<open>An array inside a template literal is joined with commas.\<close>

fun joinComma :: "char list \<Rightarrow> string" where
  "joinComma [] = []"
| "joinComma [c] = [c]"
| "joinComma (c # d # cs) = c # CHR '','' # joinComma (d # cs)"

subsection \<open>Coordinates\<close>

text \<open>\<^verbatim>\<open>toBaseZeroCoordinate\<close>: \<open>None\<close> is the result \<^verbatim>\<open>false\<close>.\<close>

definition toBaseZeroCoordinate :: "char \<Rightarrow> int \<Rightarrow> (nat \<times> nat \<times> nat) option" where
  "toBaseZeroCoordinate rowLetter colNumber =
     (let capiatalACode = of_char CHR ''A'';
          rowCoord = of_char rowLetter - capiatalACode;
          colCoord = colNumber - 1
      in if rowCoord < 0 \<or> rowCoord > 8 \<or> colCoord < 0 \<or> colCoord > 8 then None
         else Some (nat colCoord, nat rowCoord, nat (9 * rowCoord + colCoord)))"

text \<open>\<^verbatim>\<open>toLetterNumberCoordinate\<close>: the row letter is \<open>undefined\<close> from cell 81 on.\<close>

definition rowLetters :: string where
  "rowLetters = ''ABCDEFGHI''"

definition toLetterNumberCoordinate :: "nat \<Rightarrow> char option \<times> int" where
  "toLetterNumberCoordinate cellNumber =
     (at rowLetters (cellNumber div 9), int (cellNumber mod 9) + 1)"

subsection \<open>validate\<close>

record ValidateResult =
  ok :: bool
  error :: "string option"

definition failed :: "string \<Rightarrow> ValidateResult" where
  "failed e = \<lparr>ok = False, error = Some e\<rparr>"

definition isDigit :: "char \<Rightarrow> bool" where
  "isDigit c = (c \<in> set ''0123456789'')"

text \<open>The regular expression \<^verbatim>\<open>/^[\.\d]{81}$/\<close>.\<close>

definition validPuzzleRegex :: "string \<Rightarrow> bool" where
  "validPuzzleRegex s = (length s = 81 \<and> list_all (\<lambda>c. c = CHR ''.'' \<or> isDigit c) s)"

text \<open>
  \<^verbatim>\<open>validate\<close>. The empty string is falsy. An array is truthy, and the regular
  expression tests its conversion to a string, the cells joined with commas, which for
  81 one-character cells has 161 characters.
\<close>

fun validate :: "puzzle \<Rightarrow> ValidateResult" where
  "validate (Str puzzleString) =
     (if puzzleString = [] then failed ''No puzzle string given.''
      else if length puzzleString \<noteq> 81 then failed ''Expected puzzle to be 81 characters long''
      else if \<not> validPuzzleRegex puzzleString then failed ''Invalid characters in puzzle''
      else \<lparr>ok = True, error = None\<rparr>)"
| "validate (Arr a) =
     (if length a \<noteq> 81 then failed ''Expected puzzle to be 81 characters long''
      else if \<not> validPuzzleRegex (joinComma a) then failed ''Invalid characters in puzzle''
      else \<lparr>ok = True, error = None\<rparr>)"

subsection \<open>The placement checks\<close>

text \<open>\<^verbatim>\<open>puzzleString[i] === `${value}`\<close>\<close>

definition cellIs :: "char list \<Rightarrow> nat \<Rightarrow> string \<Rightarrow> bool" where
  "cellIs cs i v = (case at cs i of None \<Rightarrow> False | Some c \<Rightarrow> [c] = v)"

text \<open>
  \<^verbatim>\<open>checkRowPlacement\<close>. With \<^verbatim>\<open>coord === false\<close> the row start is \<^verbatim>\<open>NaN\<close>, the slice is
  empty and the cell test fails. Where the cell holds the value, the value is the
  cell's one character, so \<^verbatim>\<open>indexOf\<close> looks for that character; on an array the two
  slices are arrays, which the template literal joins with commas.
\<close>

definition checkRowPlacement :: "puzzle \<Rightarrow> char \<Rightarrow> int \<Rightarrow> string \<Rightarrow> bool" where
  "checkRowPlacement puzzleString rowLetter column v =
     (case toBaseZeroCoordinate rowLetter column of
        None \<Rightarrow> (case puzzleString of Str s \<Rightarrow> v \<noteq> [] | Arr a \<Rightarrow> True)
      | Some (x, y, cell) \<Rightarrow>
          (let rowStart = int (9 * y);
               rowString = slice (cells puzzleString) rowStart (rowStart + 9)
           in if cellIs (cells puzzleString) cell v then
                (let valueIndex = indexOf rowString (hd v)
                 in case puzzleString of
                      Str s \<Rightarrow>
                        \<not> strIncludes (slice rowString 0 valueIndex @
                                       sliceFrom rowString (valueIndex + 1)) v
                    | Arr a \<Rightarrow>
                        \<not> strIncludes (joinComma (slice rowString 0 valueIndex) @
                                       joinComma (sliceFrom rowString (valueIndex + 1))) v)
              else (case puzzleString of
                      Str s \<Rightarrow> \<not> strIncludes rowString v
                    | Arr a \<Rightarrow> \<not> arrIncludes (map Some rowString) v)))"

text \<open>
  \<^verbatim>\<open>checkColPlacement\<close>. With \<^verbatim>\<open>coord === false\<close> the array collects nine \<open>undefined\<close>.
\<close>

definition checkColPlacement :: "puzzle \<Rightarrow> char \<Rightarrow> int \<Rightarrow> string \<Rightarrow> bool" where
  "checkColPlacement puzzleString rowLetter column v =
     (case toBaseZeroCoordinate rowLetter column of
        None \<Rightarrow> True
      | Some (x, y, cell) \<Rightarrow>
          (let colStart = x;
               colArray = map (\<lambda>i. at (cells puzzleString) (colStart + i * 9))
                            (filter (\<lambda>i. \<not> (cell = colStart + i * 9 \<and>
                                               cellIs (cells puzzleString) cell v)) [0..<9])
           in \<not> arrIncludes colArray v))"

text \<open>
  \<^verbatim>\<open>checkRegionPlacement\<close>. Destructuring \<^verbatim>\<open>false\<close> throws.
\<close>

definition regionCells :: "nat \<Rightarrow> nat \<Rightarrow> nat list" where
  "regionCells x y =
     (let regionTopLeft = (x div 3 * 3, y div 3 * 3)
      in concat (map (\<lambda>i. map (\<lambda>j. 9 * (snd regionTopLeft + i) + (fst regionTopLeft + j))
                                [0..<3]) [0..<3]))"

definition checkRegionPlacement :: "puzzle \<Rightarrow> char \<Rightarrow> int \<Rightarrow> string \<Rightarrow> exn + bool" where
  "checkRegionPlacement puzzleString rowLetter column v =
     (case toBaseZeroCoordinate rowLetter column of
        None \<Rightarrow> Inl TypeError
      | Some (x, y, cell) \<Rightarrow>
          (let regionArray = map (at (cells puzzleString))
                               (filter (\<lambda>regionCell. \<not> (cell = regionCell \<and>
                                           cellIs (cells puzzleString) regionCell v))
                                       (regionCells x y))
           in Inr (\<not> arrIncludes regionArray v)))"

text \<open>\<^verbatim>\<open>checkPlacement\<close>: \<^verbatim>\<open>&&\<close> evaluates the region check only after the other two.\<close>

definition checkPlacement :: "puzzle \<Rightarrow> char \<Rightarrow> int \<Rightarrow> string \<Rightarrow> exn + bool" where
  "checkPlacement puzzleString rowLetter column v =
     (if checkRowPlacement puzzleString rowLetter column v \<and>
         checkColPlacement puzzleString rowLetter column v
      then checkRegionPlacement puzzleString rowLetter column v
      else Inr False)"

subsection \<open>getNextEmptyCell\<close>

record EmptyCell =
  row :: char
  col :: int
  index :: nat
  possible :: string

text \<open>The scan \<^verbatim>\<open>for (let i = 0; i < puzzleString.length; ++i)\<close> for the first \<^verbatim>\<open>"."\<close>.\<close>

fun scanEmpty :: "char list \<Rightarrow> nat \<Rightarrow> nat option" where
  "scanEmpty [] i = None"
| "scanEmpty (c # cs) i = (if c = CHR ''.'' then Some i else scanEmpty cs (Suc i))"

text \<open>The numbers 1 to 9, each as the character that \<^verbatim>\<open>`${v}`\<close> makes of it.\<close>

definition digitChars :: string where
  "digitChars = ''123456789''"

text \<open>
  The loop \<^verbatim>\<open>for (let v = 1; v <= 9; ++v)\<close>, over the characters \<^verbatim>\<open>`${v}`\<close> that it checks
  and pushes.
\<close>

fun possibleValues :: "puzzle \<Rightarrow> char \<Rightarrow> int \<Rightarrow> string \<Rightarrow> exn + string" where
  "possibleValues p r c [] = Inr []"
| "possibleValues p r c (v # vs) =
     (case checkPlacement p r c [v] of
        Inl e \<Rightarrow> Inl e
      | Inr valid \<Rightarrow>
          (case possibleValues p r c vs of
             Inl e \<Rightarrow> Inl e
           | Inr rest \<Rightarrow> Inr (if valid then v # rest else rest)))"

text \<open>
  \<^verbatim>\<open>getNextEmptyCell\<close>: \<open>Inr None\<close> is the result \<^verbatim>\<open>false\<close>. An \<open>undefined\<close> row letter
  makes \<^verbatim>\<open>toBaseZeroCoordinate\<close> throw in the first check.
\<close>

definition getNextEmptyCell :: "puzzle \<Rightarrow> exn + EmptyCell option" where
  "getNextEmptyCell puzzleString =
     (case scanEmpty (cells puzzleString) 0 of
        None \<Rightarrow> Inr None
      | Some i \<Rightarrow>
          (case toLetterNumberCoordinate i of
             (None, c) \<Rightarrow> Inl TypeError
           | (Some r, c) \<Rightarrow>
               (case possibleValues puzzleString r c digitChars of
                  Inl e \<Rightarrow> Inl e
                | Inr vs \<Rightarrow> Inr (Some \<lparr>row = r, col = c, index = i, possible = vs\<rparr>))))"

subsection \<open>solve\<close>

datatype SolveResult = Solution string | Error string

text \<open>
  Lines 410 to 419 of \<^verbatim>\<open>solve\<close>: what a call does with the array once its placements
  are over.
\<close>

definition finish :: "char list \<Rightarrow> nat \<Rightarrow> exn + SolveResult \<times> char list" where
  "finish a i =
     (case getNextEmptyCell (Arr a) of
        Inl e \<Rightarrow> Inl e
      | Inr next \<Rightarrow>
          (let a' = (if next \<noteq> None then a[i := CHR ''.''] else a)
           in if CHR ''.'' \<in> set a' then Inr (Error ''Puzzle cannot be solved'', a')
              else Inr (Solution a', a')))"

text \<open>
  The body of \<^verbatim>\<open>solve\<close> from line 387 on, on the array: \<open>solve_arr a\<close> is the call
  \<^verbatim>\<open>solve(a, false)\<close>, which returns a result and leaves the array changed; both are
  returned. \<open>tryValues\<close> is the loop \<^verbatim>\<open>for (const value of possible)\<close>, from the array as
  the iterations so far have left it. The results of the recursive calls are dropped,
  as in the source. The index written to comes from the scan, so it is inside the array.
\<close>

function solve_arr :: "char list \<Rightarrow> exn + SolveResult \<times> char list"
  and tryValues :: "char list \<Rightarrow> char \<Rightarrow> int \<Rightarrow> nat \<Rightarrow> string \<Rightarrow> exn + char list"
where
  "solve_arr a =
     (case getNextEmptyCell (Arr a) of
        Inl e \<Rightarrow> Inl e
      | Inr None \<Rightarrow> Inr (Solution a, a)
      | Inr (Some nextEmptyCell) \<Rightarrow>
          (case (if length (possible nextEmptyCell) = 1 then
                   (case solve_arr (a[index nextEmptyCell := possible nextEmptyCell ! 0]) of
                      Inl e \<Rightarrow> Inl e
                    | Inr (res, a') \<Rightarrow> Inr a')
                 else tryValues a (row nextEmptyCell) (col nextEmptyCell)
                        (index nextEmptyCell) (possible nextEmptyCell)) of
             Inl e \<Rightarrow> Inl e
           | Inr a' \<Rightarrow> finish a' (index nextEmptyCell)))"
| "tryValues a r c i [] = Inr a"
| "tryValues a r c i (v # vs) =
     (case checkPlacement (Arr a) r c [v] of
        Inl e \<Rightarrow> Inl e
      | Inr False \<Rightarrow> tryValues a r c i vs
      | Inr True \<Rightarrow>
          (case solve_arr (a[i := v]) of
             Inl e \<Rightarrow> Inl e
           | Inr (res, a') \<Rightarrow> tryValues a' r c i vs))"
  by pat_completeness auto


text \<open>
  \<^verbatim>\<open>solve\<close>, lines 365 to 382, then the body above. The model's argument is a string or
  an array, so the branch for other types is not there. The second component of the
  result is the array the call worked on as the call leaves it: for an array argument,
  the caller's array.
\<close>

definition solve :: "puzzle \<Rightarrow> bool \<Rightarrow> exn + SolveResult \<times> char list" where
  "solve puzzleString validateFirst =
     (let validation = validate puzzleString
      in if validateFirst \<and> \<not> ok validation then
           Inr (Error (case ValidateResult.error validation of Some e \<Rightarrow> e | None \<Rightarrow> []),
                cells puzzleString)
         else solve_arr (cells puzzleString))"

subsection \<open>checkSolve\<close>

record CheckSolvedResult =
  solved :: bool
  error :: "string option"
  conflict :: "string list option"

text \<open>
  \<^verbatim>\<open>`${+c}`\<close> for a one-character string \<open>c\<close>: a digit is its own number, white space
  is the number 0, anything else is \<^verbatim>\<open>NaN\<close>.
\<close>

definition numberString :: "char \<Rightarrow> string" where
  "numberString c =
     (if isDigit c then [c]
      else if c \<in> set [CHR 0x09, CHR 0x0A, CHR 0x0B, CHR 0x0C, CHR 0x0D, CHR 0x20, CHR 0xA0]
      then ''0'' else ''NaN'')"

text \<open>\<^verbatim>\<open>`${col}`\<close> for a column number from 1 to 9.\<close>

definition columnString :: "int \<Rightarrow> string" where
  "columnString c = [''0123456789'' ! nat c]"

definition conflictsOf :: "bool \<Rightarrow> bool \<Rightarrow> bool \<Rightarrow> string list" where
  "conflictsOf cr cc cg =
     (if cr then [] else [''row'']) @ (if cc then [] else [''column'']) @
     (if cg then [] else [''region''])"

text \<open>The loop of \<^verbatim>\<open>checkSolve\<close> over the cells \<open>is\<close> still to visit.\<close>

fun checkSolveLoop :: "string \<Rightarrow> nat list \<Rightarrow> exn + CheckSolvedResult" where
  "checkSolveLoop puzzle [] = Inr \<lparr>solved = True, error = None, conflict = None\<rparr>"
| "checkSolveLoop puzzle (i # is) =
     (if at puzzle i = Some CHR ''.'' then
        Inr \<lparr>solved = False, error = Some ''Puzzle is not solved'', conflict = None\<rparr>
      else
        (case toLetterNumberCoordinate i of
           (None, c) \<Rightarrow> Inl TypeError
         | (Some r, c) \<Rightarrow>
             (let v = (case at puzzle i of None \<Rightarrow> ''NaN'' | Some ch \<Rightarrow> numberString ch);
                  cr = checkRowPlacement (Str puzzle) r c v;
                  cc = checkColPlacement (Str puzzle) r c v
              in case checkRegionPlacement (Str puzzle) r c v of
                   Inl e \<Rightarrow> Inl e
                 | Inr cg \<Rightarrow>
                     (let conflicts = conflictsOf cr cc cg
                      in if length conflicts > 0 then
                           Inr \<lparr>solved = False,
                                error = Some (''Cell '' @ [CHR 0x27, r] @ columnString c @
                                              [CHR 0x27] @ '' contains conflicts.''),
                                conflict = Some conflicts\<rparr>
                         else checkSolveLoop puzzle is))))"

definition checkSolve :: "string \<Rightarrow> exn + CheckSolvedResult" where
  "checkSolve puzzle =
     (let validation = validate (Str puzzle)
      in if \<not> ok validation then
           Inr \<lparr>solved = False, error = ValidateResult.error validation, conflict = None\<rparr>
         else checkSolveLoop puzzle [0..<length puzzle])"

subsection \<open>generate\<close>






subsection \<open>Auxiliary notions\<close>

text \<open>The positions of the empty cells of an array.\<close>

definition dots :: "char list \<Rightarrow> nat set" where
  "dots a = {i. i < length a \<and> a ! i = CHR ''.''}"

text \<open>The measure of the termination proof of \<open>solve_arr\<close> and \<open>tryValues\<close>.\<close>

definition tryDots :: "char list \<Rightarrow> nat \<Rightarrow> string \<Rightarrow> nat set" where
  "tryDots a i vs =
     (if CHR ''.'' \<in> set vs then dots a \<union> ({i} \<inter> {..<length a}) else dots a - {i})"

definition solveMeasure ::
  "char list + char list \<times> char \<times> int \<times> nat \<times> string \<Rightarrow> nat \<times> nat" where
  "solveMeasure x =
     (case x of
        Inl a \<Rightarrow> (card (dots a), 0)
      | Inr (a, r, c, i, vs) \<Rightarrow> (card (tryDots a i vs), Suc (length vs)))"

text \<open>
  What the three placement checks decide for cell \<open>i\<close> and character \<open>c\<close>: no other cell
  of the row, of the column, of the region holds \<open>c\<close>.
\<close>

definition rowFree :: "char list \<Rightarrow> nat \<Rightarrow> char \<Rightarrow> bool" where
  "rowFree cs i c = (\<forall>j < length cs. j \<noteq> i \<and> j div 9 = i div 9 \<longrightarrow> cs ! j \<noteq> c)"

definition colFree :: "char list \<Rightarrow> nat \<Rightarrow> char \<Rightarrow> bool" where
  "colFree cs i c = (\<forall>j < length cs. j \<noteq> i \<and> j < 81 \<and> j mod 9 = i mod 9 \<longrightarrow> cs ! j \<noteq> c)"

definition regionFree :: "char list \<Rightarrow> nat \<Rightarrow> char \<Rightarrow> bool" where
  "regionFree cs i c =
     (\<forall>j < length cs. j \<noteq> i \<and> j < 81 \<and> j div 27 = i div 27 \<and> j mod 9 div 3 = i mod 9 div 3
         \<longrightarrow> cs ! j \<noteq> c)"

definition free :: "char list \<Rightarrow> nat \<Rightarrow> char \<Rightarrow> bool" where
  "free cs i c = (rowFree cs i c \<and> colFree cs i c \<and> regionFree cs i c)"

text \<open>
  Cell \<open>i\<close> of the string \<open>s\<close> passes the combined placement check for its own
  character.
\<close>

definition cellPasses :: "string \<Rightarrow> nat \<Rightarrow> bool" where
  "cellPasses s i =
     (case toLetterNumberCoordinate i of
        (None, c) \<Rightarrow> False
      | (Some r, c) \<Rightarrow> checkPlacement (Str s) r c [s ! i] = Inr True)"

text \<open>The result of \<open>checkSolve\<close> for a puzzle with an empty cell.\<close>

definition notSolved :: CheckSolvedResult where
  "notSolved = \<lparr>solved = False, error = Some ''Puzzle is not solved'', conflict = None\<rparr>"

text \<open>
  What a call of \<open>solve_arr\<close> that starts with the array \<open>a\<close> leaves behind: the array
  \<open>a'\<close> has the filled cells of \<open>a\<close> unchanged, holds digits from 1 to 9 where it
  differs from \<open>a\<close>, is \<open>a\<close> itself if an empty cell remains, and the result is an error
  exactly then. \<open>tryFrame\<close> is the same for the loop over the candidates \<open>vs\<close> of cell
  \<open>i\<close>.
\<close>

definition solveFrame :: "char list \<Rightarrow> SolveResult \<Rightarrow> char list \<Rightarrow> bool" where
  "solveFrame a res a' =
     (length a' = length a \<and>
      (\<forall>j < length a. a ! j \<noteq> CHR ''.'' \<longrightarrow> a' ! j = a ! j) \<and>
      (\<forall>j < length a. a' ! j = a ! j \<or> a' ! j \<in> set digitChars) \<and>
      (CHR ''.'' \<in> set a' \<longrightarrow> a' = a) \<and>
      res = (if CHR ''.'' \<in> set a' then Error ''Puzzle cannot be solved'' else Solution a'))"

definition tryFrame :: "char list \<Rightarrow> nat \<Rightarrow> string \<Rightarrow> char list \<Rightarrow> bool" where
  "tryFrame a i vs a' =
     (length a' = length a \<and>
      (\<forall>j < length a. j \<noteq> i \<longrightarrow> a ! j \<noteq> CHR ''.'' \<longrightarrow> a' ! j = a ! j) \<and>
      (\<forall>j < length a. j \<noteq> i \<longrightarrow> a' ! j = a ! j \<or> a' ! j \<in> set digitChars) \<and>
      (a' ! i = a ! i \<or> a' ! i \<in> set vs) \<and>
      (CHR ''.'' \<in> set a' \<longrightarrow> (\<forall>j < length a. j \<noteq> i \<longrightarrow> a' ! j = a ! j)))"

text \<open>
  An array is consistent when no filled cell has its character in another cell of its
  row, column or region; \<open>peer i j\<close> says that \<open>j\<close> is another cell of a unit of \<open>i\<close>.
\<close>

definition consistent :: "char list \<Rightarrow> bool" where
  "consistent a = (\<forall>i < length a. a ! i \<noteq> CHR ''.'' \<longrightarrow> free a i (a ! i))"

definition peer :: "nat \<Rightarrow> nat \<Rightarrow> bool" where
  "peer i j =
     (j \<noteq> i \<and> (j div 9 = i div 9 \<or> j mod 9 = i mod 9 \<or>
                (j div 27 = i div 27 \<and> j mod 9 div 3 = i mod 9 div 3)))"

text \<open>
  Every filled cell of the puzzle string passes the combined placement check for its own
  character.
\<close>

definition givensPass :: "string \<Rightarrow> bool" where
  "givensPass x = list_all (\<lambda>i. x ! i = CHR ''.'' \<or> cellPasses x i) [0..<81]"



section \<open>Termination of the solver\<close>

lemma finite_dots: "finite (dots a)"
  by (simp add: dots_def)

lemma dots_update:
  "dots (a[i := v]) = (if v = CHR ''.'' then dots a \<union> ({i} \<inter> {..<length a}) else dots a - {i})"
proof (cases "i < length a")
  case True
  then show ?thesis by (auto simp: dots_def nth_list_update)
next
  case False
  then show ?thesis by (auto simp: dots_def)
qed

lemma dots_iff_set: "dots a = {} \<longleftrightarrow> CHR ''.'' \<notin> set a"
  by (auto simp: dots_def in_set_conv_nth)

lemma scanEmpty_Some:
  "scanEmpty a k = Some i \<Longrightarrow> k \<le> i \<and> i - k < length a \<and> a ! (i - k) = CHR ''.'' \<and> (\<forall>j < i - k. a ! j \<noteq> CHR ''.'')"
proof (induction a k rule: scanEmpty.induct)
  case (1 i)
  then show ?case by simp
next
  case (2 c cs k)
  show ?case
  proof (cases "c = CHR ''.''")
    case True
    with 2 show ?thesis by simp
  next
    case False
    with 2 have ih: "Suc k \<le> i \<and> i - Suc k < length cs \<and> cs ! (i - Suc k) = CHR ''.'' \<and> (\<forall>j < i - Suc k. cs ! j \<noteq> CHR ''.'')"
      by simp
    then have eq: "i - k = Suc (i - Suc k)" by arith
    show ?thesis using ih False unfolding eq
      by (auto simp: nth_Cons split: nat.splits)
  qed
qed

lemma scanEmpty_None: "scanEmpty a k = None \<longleftrightarrow> CHR ''.'' \<notin> set a"
  by (induction a k rule: scanEmpty.induct) auto

lemma possibleValues_subset:
  "possibleValues p r c ds = Inr vs \<Longrightarrow> set vs \<subseteq> set ds"
  by (induction ds arbitrary: vs) (auto split: sum.splits if_splits)

lemma getNextEmptyCell_Some:
  assumes "getNextEmptyCell (Arr a) = Inr (Some e)"
  shows "index e < length a" and "a ! index e = CHR ''.''"
    and "\<forall>j < index e. a ! j \<noteq> CHR ''.''"
    and "set (possible e) \<subseteq> set digitChars"
proof -
  from assms obtain i r c vs where
    sc: "scanEmpty a 0 = Some i" and pv: "possibleValues (Arr a) r c digitChars = Inr vs"
    and e: "e = \<lparr>row = r, col = c, index = i, possible = vs\<rparr>"
    unfolding getNextEmptyCell_def
    by (auto simp del: possibleValues.simps split: option.splits prod.splits sum.splits)
  from scanEmpty_Some[OF sc] e
  show "index e < length a" "a ! index e = CHR ''.''" "\<forall>j < index e. a ! j \<noteq> CHR ''.''"
    by simp_all
  from possibleValues_subset[OF pv] e show "set (possible e) \<subseteq> set digitChars"
    by simp
qed

lemma getNextEmptyCell_None:
  "getNextEmptyCell (Arr a) = Inr None \<longleftrightarrow> CHR ''.'' \<notin> set a"
  unfolding getNextEmptyCell_def using scanEmpty_None[of a 0]
  by (auto simp del: possibleValues.simps split: option.splits prod.splits sum.splits)

lemma finish_dots:
  "finish a i = Inr (res, a') \<Longrightarrow> length a' = length a \<and> dots a' \<subseteq> dots a \<union> {i}"
  unfolding finish_def
  by (auto simp: dots_update Let_def split: sum.splits if_splits)

lemma solve_partial_dots:
  "solve_arr_tryValues_dom (Inl a) \<Longrightarrow>
     (\<forall>res a'. solve_arr a = Inr (res, a') \<longrightarrow> length a' = length a \<and> dots a' \<subseteq> dots a)"
  "solve_arr_tryValues_dom (Inr (b, r, c, i, vs)) \<Longrightarrow>
     (\<forall>b'. tryValues b r c i vs = Inr b' \<longrightarrow> length b' = length b \<and> dots b' \<subseteq> dots b \<union> {i})"
proof (induction a and b r c i vs rule: solve_arr_tryValues.pinduct)
  case (1 a)
  show ?case
  proof (intro allI impI)
    fix res a'
    assume eq: "solve_arr a = Inr (res, a')"
    from eq 1(1) obtain e where g: "getNextEmptyCell (Arr a) = Inr e"
      by (auto simp: solve_arr.psimps split: sum.splits)
    show "length a' = length a \<and> dots a' \<subseteq> dots a"
    proof (cases e)
      case None
      with eq g 1(1) show ?thesis by (simp add: solve_arr.psimps)
    next
      case (Some x)
      note gs = getNextEmptyCell_Some[OF g[unfolded Some]]
      have idx: "index x \<in> dots a" using gs by (simp add: dots_def)
      show ?thesis
      proof (cases "length (possible x) = 1")
        case True
        from eq g Some True 1(1) obtain r1 a1 where
          s1: "solve_arr (a[index x := possible x ! 0]) = Inr (r1, a1)"
          and f: "finish a1 (index x) = Inr (res, a')"
          by (auto simp: solve_arr.psimps split: sum.splits prod.splits)
        from 1(2)[OF g Some True] s1
        have "length a1 = length a" "dots a1 \<subseteq> dots (a[index x := possible x ! 0])"
          by auto
        moreover have "dots (a[index x := possible x ! 0]) \<subseteq> dots a \<union> {index x}"
          by (auto simp: dots_update)
        ultimately show ?thesis using finish_dots[OF f] idx by auto
      next
        case False
        from eq g Some False 1(1) obtain a1 where
          s1: "tryValues a (row x) (col x) (index x) (possible x) = Inr a1"
          and f: "finish a1 (index x) = Inr (res, a')"
          by (auto simp: solve_arr.psimps split: sum.splits prod.splits)
        from 1(3)[OF g Some False] s1
        have "length a1 = length a" "dots a1 \<subseteq> dots a \<union> {index x}"
          by auto
        then show ?thesis using finish_dots[OF f] idx by auto
      qed
    qed
  qed
next
  case (2 a r c i)
  then show ?case by (simp add: tryValues.psimps(1)) blast
next
  case (3 a r c i v vs)
  show ?case
  proof (intro allI impI)
    fix b'
    assume eq: "tryValues a r c i (v # vs) = Inr b'"
    from eq 3(1) obtain ok where ck: "checkPlacement (Arr a) r c [v] = Inr ok"
      by (auto simp: tryValues.psimps split: sum.splits)
    show "length b' = length a \<and> dots b' \<subseteq> dots a \<union> {i}"
    proof (cases ok)
      case True
      then have okT: "ok = True" by simp
      from eq ck True 3(1) obtain r1 a1 where
        s1: "solve_arr (a[i := v]) = Inr (r1, a1)"
        and t: "tryValues a1 r c i vs = Inr b'"
        by (auto simp: tryValues.psimps split: sum.splits prod.splits)
      from 3(2)[OF ck okT] s1
      have a1: "length a1 = length a" "dots a1 \<subseteq> dots (a[i := v])" by auto
      have "dots (a[i := v]) \<subseteq> dots a \<union> {i}" by (auto simp: dots_update)
      moreover from 3(3)[OF ck okT s1 refl] t
      have "length b' = length a1" "dots b' \<subseteq> dots a1 \<union> {i}" by auto
      ultimately show ?thesis using a1 by auto
    next
      case False
      then have okF: "ok = False" by simp
      from eq ck False 3(1) have "tryValues a r c i vs = Inr b'"
        by (auto simp: tryValues.psimps)
      with 3(4)[OF ck okF] show ?thesis by auto
    qed
  qed
qed

lemma finite_tryDots: "finite (tryDots a i vs)"
  by (simp add: tryDots_def finite_dots)

lemma lex_less:
  "a < c \<Longrightarrow> ((a, b), (c, d)) \<in> less_than <*lex*> less_than"
  by auto

lemma lex_le_less:
  "a \<le> c \<Longrightarrow> b < d \<Longrightarrow> ((a, b), (c, d)) \<in> less_than <*lex*> less_than"
  by auto

lemma card_dots_remove: "i \<in> dots a \<Longrightarrow> card (dots a - {i}) < card (dots a)"
  by (rule card_Diff1_less) (simp_all add: finite_dots)

lemma digit_not_dot: "v \<in> set digitChars \<Longrightarrow> v \<noteq> CHR ''.''"
  by (auto simp: digitChars_def)

termination solve_arr
proof (relation "inv_image (less_than <*lex*> less_than) solveMeasure", goal_cases)
  case 1
  show ?case by auto
next
  case (2 a b x2)
  note gs = getNextEmptyCell_Some[OF 2(1)[unfolded 2(2)]]
  from 2(3) have "possible x2 ! 0 \<in> set (possible x2)" by (simp add: nth_mem)
  with gs(4) have "possible x2 ! 0 \<noteq> CHR ''.''" using digit_not_dot by blast
  then have "dots (a[index x2 := possible x2 ! 0]) = dots a - {index x2}"
    by (simp add: dots_update)
  moreover have "index x2 \<in> dots a" using gs by (simp add: dots_def)
  ultimately have "card (dots (a[index x2 := possible x2 ! 0])) < card (dots a)"
    using card_dots_remove[of "index x2" a] by simp
  then show ?case
    unfolding in_inv_image solveMeasure_def sum.case by (rule lex_less)
next
  case (3 a b x2)
  note gs = getNextEmptyCell_Some[OF 3(1)[unfolded 3(2)]]
  have "CHR ''.'' \<notin> set (possible x2)" using gs(4) digit_not_dot by blast
  moreover have "index x2 \<in> dots a" using gs by (simp add: dots_def)
  ultimately have "card (tryDots a (index x2) (possible x2)) < card (dots a)"
    using card_dots_remove[of "index x2" a] by (simp add: tryDots_def)
  then show ?case
    unfolding in_inv_image solveMeasure_def sum.case prod.case by (rule lex_less)
next
  case (4 a r c i v vs b)
  have "dots (a[i := v]) \<subseteq> tryDots a i (v # vs)"
    by (auto simp: dots_update tryDots_def)
  then have "card (dots (a[i := v])) \<le> card (tryDots a i (v # vs))"
    by (rule card_mono[rotated]) (rule finite_tryDots)
  then show ?case
    unfolding in_inv_image solveMeasure_def sum.case prod.case by (rule lex_le_less) simp
next
  case (5 a r c i v vs b ba x y)
  from solve_partial_dots(1)[of "a[i := v]"] 5
  have y: "length y = length a" "dots y \<subseteq> dots (a[i := v])" by auto
  have "tryDots y i vs \<subseteq> tryDots a i (v # vs)"
    using y by (auto simp: dots_update tryDots_def split: if_splits)
  then have "card (tryDots y i vs) \<le> card (tryDots a i (v # vs))"
    by (rule card_mono[rotated]) (rule finite_tryDots)
  then show ?case
    unfolding in_inv_image solveMeasure_def sum.case prod.case by (rule lex_le_less) simp
next
  case (6 a r c i v vs b)
  have "tryDots a i vs \<subseteq> tryDots a i (v # vs)"
    by (auto simp: tryDots_def)
  then have "card (tryDots a i vs) \<le> card (tryDots a i (v # vs))"
    by (rule card_mono[rotated]) (rule finite_tryDots)
  then show ?case
    unfolding in_inv_image solveMeasure_def sum.case prod.case by (rule lex_le_less) simp
qed


section \<open>Coordinates\<close>

lemma length_rowLetters: "length rowLetters = 9"
  by (simp add: rowLetters_def)

lemma rowLetters_code: "y < 9 \<Longrightarrow> (of_char (rowLetters ! y) :: int) = 65 + int y"
proof -
  assume "y < 9"
  then have "y \<in> {0, 1, 2, 3, 4, 5, 6, 7, 8}" by auto
  then show ?thesis unfolding rowLetters_def by auto
qed

lemma rowLetter_code:
  "r \<in> set rowLetters \<longleftrightarrow> 0 \<le> (of_char r :: int) - of_char CHR ''A'' \<and> (of_char r :: int) - of_char CHR ''A'' \<le> 8"
proof
  assume "r \<in> set rowLetters"
  then show "0 \<le> (of_char r :: int) - of_char CHR ''A'' \<and> (of_char r :: int) - of_char CHR ''A'' \<le> 8"
    by (auto simp: rowLetters_def)
next
  assume a: "0 \<le> (of_char r :: int) - of_char CHR ''A'' \<and> (of_char r :: int) - of_char CHR ''A'' \<le> 8"
  define y where "y = nat (of_char r - 65)"
  from a have y: "y < 9" "(of_char r :: int) = 65 + int y" by (auto simp: y_def)
  from y(2) rowLetters_code[OF y(1)] have "(of_char r :: int) = of_char (rowLetters ! y)"
    by simp
  then have "r = rowLetters ! y" by (simp only: of_char_eq_iff)
  then show "r \<in> set rowLetters" using y(1) by (simp add: length_rowLetters)
qed

lemma toBaseZeroCoordinate_cell:
  assumes "x < 9" "y < 9"
  shows "toBaseZeroCoordinate (rowLetters ! y) (int x + 1) = Some (x, y, 9 * y + x)"
  using assms rowLetters_code[OF assms(2)]
  by (simp add: toBaseZeroCoordinate_def Let_def nat_add_distrib nat_mult_distrib)

lemma toLetterNumberCoordinate_cell:
  assumes "i < 81"
  shows "toLetterNumberCoordinate i = (Some (rowLetters ! (i div 9)), int (i mod 9) + 1)"
  using assms by (simp add: toLetterNumberCoordinate_def at_def length_rowLetters)

text \<open>
  Claim C9. For a row letter from A to I and a column number from 1 to 9,
  \<open>toBaseZeroCoordinate\<close> returns a triple \<open>(x, y, idx)\<close> with \<open>idx = 9 * y + x\<close>, at most
  80, and \<open>toLetterNumberCoordinate idx\<close> gives the row letter and the column number
  back. For every other row letter or column number the result is \<^verbatim>\<open>false\<close>.
\<close>

theorem coordinate_roundtrip:
  "(r \<in> set ''ABCDEFGHI'' \<and> 1 \<le> c \<and> c \<le> 9 \<longrightarrow>
      (\<exists>x y idx. toBaseZeroCoordinate r c = Some (x, y, idx) \<and> idx = 9 * y + x \<and> idx \<le> 80 \<and>
                 toLetterNumberCoordinate idx = (Some r, c))) \<and>
   (\<not> (r \<in> set ''ABCDEFGHI'' \<and> 1 \<le> c \<and> c \<le> 9) \<longrightarrow> toBaseZeroCoordinate r c = None)"
proof (intro conjI impI)
  assume a: "r \<in> set ''ABCDEFGHI'' \<and> 1 \<le> c \<and> c \<le> 9"
  then have "r \<in> set rowLetters" by (simp add: rowLetters_def)
  then obtain y where y: "y < 9" "r = rowLetters ! y"
    by (auto simp: in_set_conv_nth length_rowLetters)
  define x where "x = nat (c - 1)"
  have x: "x < 9" "c = int x + 1" using a by (auto simp: x_def)
  have "toBaseZeroCoordinate r c = Some (x, y, 9 * y + x)"
    unfolding y(2) x(2) by (rule toBaseZeroCoordinate_cell[OF x(1) y(1)])
  moreover have "9 * y + x \<le> 80" using x(1) y(1) by simp
  moreover have "toLetterNumberCoordinate (9 * y + x) = (Some r, c)"
    using x y by (simp add: toLetterNumberCoordinate_cell)
  ultimately show "\<exists>x y idx. toBaseZeroCoordinate r c = Some (x, y, idx) \<and> idx = 9 * y + x \<and>
      idx \<le> 80 \<and> toLetterNumberCoordinate idx = (Some r, c)"
    by blast
next
  assume "\<not> (r \<in> set ''ABCDEFGHI'' \<and> 1 \<le> c \<and> c \<le> 9)"
  then show "toBaseZeroCoordinate r c = None"
    using rowLetter_code[of r] unfolding rowLetters_def toBaseZeroCoordinate_def Let_def
    by auto
qed

theorem coordinate_roundtrip_witness:
  "toBaseZeroCoordinate CHR ''C'' 5 = Some (4, 2, 22) \<and>
   toLetterNumberCoordinate 22 = (Some CHR ''C'', 5) \<and>
   toBaseZeroCoordinate CHR ''J'' 5 = None \<and> toBaseZeroCoordinate CHR ''A'' 10 = None"
  using coordinate_roundtrip[of "CHR ''C''" 5] coordinate_roundtrip[of "CHR ''J''" 5]
    coordinate_roundtrip[of "CHR ''A''" 10]
  by (simp add: toBaseZeroCoordinate_def toLetterNumberCoordinate_def at_def rowLetters_def)

section \<open>What the placement checks decide\<close>

lemma slice_row: "slice cs (int b) (int b + 9) = take 9 (drop b cs)"
proof (cases "b < length cs")
  case True
  then show ?thesis
    by (simp add: slice_def clampPos_def min_def nat_add_distrib)
next
  case False
  then show ?thesis by (simp add: slice_def clampPos_def)
qed

lemma indexOf_bounds: "- 1 \<le> indexOf xs c \<and> indexOf xs c < int (length xs)"
  by (induction xs) (auto simp: Let_def)

lemma indexOf_mem:
  "c \<in> set xs \<Longrightarrow> 0 \<le> indexOf xs c \<and> xs ! nat (indexOf xs c) = c"
proof (induction xs)
  case Nil
  then show ?case by simp
next
  case (Cons y ys)
  show ?case
  proof (cases "y = c")
    case True
    then show ?thesis by simp
  next
    case False
    with Cons have ih: "0 \<le> indexOf ys c" "ys ! nat (indexOf ys c) = c" by auto
    then show ?thesis using False by (simp add: Let_def nat_add_distrib)
  qed
qed

lemma slice_remove:
  assumes "0 \<le> k" "k < int (length xs)"
  shows "slice xs 0 k @ sliceFrom xs (k + 1) = take (nat k) xs @ drop (Suc (nat k)) xs"
  using assms by (simp add: slice_def sliceFrom_def clampPos_def min_def nat_add_distrib)

lemma startsWith_single: "startsWith s [c] \<longleftrightarrow> (\<exists>t. s = c # t)"
  by (cases s) auto

lemma strIncludes_single: "strIncludes s [c] \<longleftrightarrow> c \<in> set s"
  by (induction s) (auto simp: startsWith_single)

lemma set_joinComma: "c \<noteq> CHR '','' \<Longrightarrow> c \<in> set (joinComma xs) \<longleftrightarrow> c \<in> set xs"
  by (induction xs rule: joinComma.induct) auto

lemma arrIncludes_single:
  "arrIncludes a [c] \<longleftrightarrow> Some c \<in> set a"
  unfolding arrIncludes_def list_ex_iff
  by (auto split: option.splits)

lemma mem_remove_nth:
  assumes "k < length xs" "q < length xs" "xs ! k = c" "xs ! q = c"
  shows "c \<in> set (take k xs @ drop (Suc k) xs) \<longleftrightarrow> (\<exists>p < length xs. p \<noteq> q \<and> xs ! p = c)"
proof
  assume "c \<in> set (take k xs @ drop (Suc k) xs)"
  then consider "c \<in> set (take k xs)" | "c \<in> set (drop (Suc k) xs)" by auto
  then have "\<exists>p < length xs. p \<noteq> k \<and> xs ! p = c"
  proof cases
    case 1
    then obtain i where "i < length (take k xs)" "take k xs ! i = c"
      by (auto simp: in_set_conv_nth)
    then have "i < length xs \<and> i \<noteq> k \<and> xs ! i = c" by simp
    then show ?thesis by blast
  next
    case 2
    then obtain i where "i < length (drop (Suc k) xs)" "drop (Suc k) xs ! i = c"
      by (auto simp: in_set_conv_nth)
    then have "Suc k + i < length xs \<and> Suc k + i \<noteq> k \<and> xs ! (Suc k + i) = c" by simp
    then show ?thesis by blast
  qed
  then obtain p where p: "p < length xs" "p \<noteq> k" "xs ! p = c" by auto
  show "\<exists>p < length xs. p \<noteq> q \<and> xs ! p = c"
  proof (cases "k = q")
    case True
    with p show ?thesis by auto
  next
    case False
    with assms show ?thesis by auto
  qed
next
  assume "\<exists>p < length xs. p \<noteq> q \<and> xs ! p = c"
  then obtain p where p: "p < length xs" "p \<noteq> q" "xs ! p = c" by auto
  have ex: "\<exists>p < length xs. p \<noteq> k \<and> xs ! p = c"
  proof (cases "k = q")
    case True
    with p show ?thesis by auto
  next
    case False
    with assms show ?thesis by auto
  qed
  then obtain p' where p': "p' < length xs" "p' \<noteq> k" "xs ! p' = c" by auto
  show "c \<in> set (take k xs @ drop (Suc k) xs)"
  proof (cases "p' < k")
    case True
    then have "take k xs ! p' = c" using p' by simp
    moreover have "p' < length (take k xs)" using True p' by simp
    ultimately have "c \<in> set (take k xs)" using nth_mem by metis
    then show ?thesis by simp
  next
    case False
    with p' have gt: "Suc k \<le> p'" by simp
    then have "drop (Suc k) xs ! (p' - Suc k) = c" using p' by simp
    moreover have "p' - Suc k < length (drop (Suc k) xs)" using gt p' by simp
    ultimately have "c \<in> set (drop (Suc k) xs)" using nth_mem by metis
    then show ?thesis by simp
  qed
qed


lemma cellIs_single: "cellIs cs i [c] \<longleftrightarrow> i < length cs \<and> cs ! i = c"
  by (simp add: cellIs_def at_def)

lemma row_length: "p < length (take 9 (drop b cs)) \<longleftrightarrow> p < 9 \<and> b + p < length cs"
  by auto

lemma row_nth: "p < 9 \<Longrightarrow> b + p < length cs \<Longrightarrow> take 9 (drop b cs) ! p = cs ! (b + p)"
  by simp

lemma row_ex:
  "(\<exists>j < length cs. j div 9 = y \<and> P j) \<longleftrightarrow> (\<exists>p < 9. 9 * y + p < length cs \<and> P (9 * y + p))"
proof
  assume "\<exists>j < length cs. j div 9 = y \<and> P j"
  then obtain j where j: "j < length cs" "j div 9 = y" "P j" by auto
  have "j = 9 * y + j mod 9" using j(2) by auto
  moreover have "j mod 9 < 9" by simp
  ultimately show "\<exists>p < 9. 9 * y + p < length cs \<and> P (9 * y + p)" using j by metis
next
  assume "\<exists>p < 9. 9 * y + p < length cs \<and> P (9 * y + p)"
  then obtain p where "p < 9" "9 * y + p < length cs" "P (9 * y + p)" by auto
  moreover from this have "(9 * y + p) div 9 = y" by simp
  ultimately show "\<exists>j < length cs. j div 9 = y \<and> P j" by blast
qed

lemma row_mem:
  "c \<in> set (take 9 (drop (9 * y) cs)) \<longleftrightarrow> (\<exists>j < length cs. j div 9 = y \<and> cs ! j = c)"
  unfolding row_ex in_set_conv_nth row_length
  by (metis row_nth)

lemma row_remove:
  assumes "x < 9" "9 * y + x < length cs" "cs ! (9 * y + x) = c"
  defines "rw \<equiv> take 9 (drop (9 * y) cs)"
  shows "c \<in> set (take (nat (indexOf rw c)) rw @ drop (Suc (nat (indexOf rw c))) rw) \<longleftrightarrow>
         (\<exists>j < length cs. j \<noteq> 9 * y + x \<and> j div 9 = y \<and> cs ! j = c)"
proof -
  have q: "x < length rw" "rw ! x = c" using assms by (simp_all add: rw_def)
  then have mem: "c \<in> set rw" using nth_mem by metis
  let ?k = "nat (indexOf rw c)"
  from indexOf_mem[OF mem] indexOf_bounds[of rw c]
  have k: "?k < length rw" "rw ! ?k = c" by auto
  have "c \<in> set (take ?k rw @ drop (Suc ?k) rw) \<longleftrightarrow> (\<exists>p < length rw. p \<noteq> x \<and> rw ! p = c)"
    by (rule mem_remove_nth[OF k(1) q(1) k(2) q(2)])
  also have "\<dots> \<longleftrightarrow> (\<exists>p < 9. 9 * y + p < length cs \<and> (9 * y + p \<noteq> 9 * y + x \<and> cs ! (9 * y + p) = c))"
    unfolding rw_def row_length by (metis row_nth add_left_cancel)
  also have "\<dots> \<longleftrightarrow> (\<exists>j < length cs. j div 9 = y \<and> (j \<noteq> 9 * y + x \<and> cs ! j = c))"
    by (rule row_ex[symmetric])
  finally show ?thesis by blast
qed

lemma checkRowPlacement_cell:
  assumes "x < 9" "y < 9" and "p = Str cs \<or> (p = Arr cs \<and> c \<noteq> CHR '','')"
  shows "checkRowPlacement p (rowLetters ! y) (int x + 1) [c] \<longleftrightarrow> rowFree cs (9 * y + x) c"
proof -
  have cells: "cells p = cs" using assms(3) by auto
  have dv: "(9 * y + x) div 9 = y" using assms(1) by simp
  let ?rw = "take 9 (drop (9 * y) cs)"
  show ?thesis
  proof (cases "cellIs cs (9 * y + x) [c]")
    case True
    then have cell: "9 * y + x < length cs" "cs ! (9 * y + x) = c" by (simp_all add: cellIs_single)
    have q: "x < length ?rw" "?rw ! x = c" using assms(1) cell by simp_all
    then have mem: "c \<in> set ?rw" using nth_mem by metis
    from indexOf_mem[OF mem] indexOf_bounds[of ?rw c]
    have k: "0 \<le> indexOf ?rw c" "indexOf ?rw c < int (length ?rw)" by auto
    have inc: "strIncludes (slice ?rw 0 (indexOf ?rw c) @ sliceFrom ?rw (indexOf ?rw c + 1)) [c] \<longleftrightarrow>
          \<not> rowFree cs (9 * y + x) c"
      unfolding slice_remove[OF k] strIncludes_single row_remove[OF assms(1) cell]
      by (auto simp: rowFree_def dv)
    have inc2: "strIncludes (joinComma (slice ?rw 0 (indexOf ?rw c)) @
                   joinComma (sliceFrom ?rw (indexOf ?rw c + 1))) [c] \<longleftrightarrow>
          \<not> rowFree cs (9 * y + x) c" if "c \<noteq> CHR '',''"
    proof -
      have "c \<in> set (joinComma (slice ?rw 0 (indexOf ?rw c)) @ joinComma (sliceFrom ?rw (indexOf ?rw c + 1)))
           \<longleftrightarrow> c \<in> set (slice ?rw 0 (indexOf ?rw c) @ sliceFrom ?rw (indexOf ?rw c + 1))"
        using that by (simp add: set_joinComma)
      then show ?thesis using inc unfolding strIncludes_single by simp
    qed
    show ?thesis
      using assms(3) True inc inc2
      unfolding checkRowPlacement_def toBaseZeroCoordinate_cell[OF assms(1,2)]
      by (auto simp: Let_def slice_row[of _ "9 * y", simplified])
  next
    case False
    have "c \<in> set ?rw \<longleftrightarrow> \<not> rowFree cs (9 * y + x) c"
      unfolding row_mem rowFree_def dv using False by (auto simp: cellIs_single)
    then show ?thesis
      using assms(3) False
      unfolding checkRowPlacement_def toBaseZeroCoordinate_cell[OF assms(1,2)]
      by (auto simp: Let_def slice_row[of _ "9 * y", simplified] strIncludes_single arrIncludes_single)
  qed
qed

lemma div27: "(j::nat) div 27 = j div 9 div 3"
  by (simp add: div_mult2_eq[symmetric])

lemma cell_div27: "(x::nat) < 9 \<Longrightarrow> (9 * y + x) div 27 = y div 3"
  by (simp add: div27)

lemma cell_mod9: "(x::nat) < 9 \<Longrightarrow> (9 * y + x) mod 9 = x"
  by simp

lemma third_bound: "(x::nat) < 9 \<Longrightarrow> b < 3 \<Longrightarrow> x div 3 * 3 + b < 9"
proof -
  assume "x < 9" "b < 3"
  then have "x div 3 < 3" by simp
  then have "x div 3 * 3 \<le> 6" by simp
  with \<open>b < 3\<close> show ?thesis by simp
qed

lemma region_index_fwd:
  fixes x y a b :: nat
  assumes "x < 9" "y < 9" "a < 3" "b < 3" "j = 9 * (y div 3 * 3 + a) + (x div 3 * 3 + b)"
  shows "j < 81 \<and> j div 27 = y div 3 \<and> j mod 9 div 3 = x div 3"
proof -
  have X: "x div 3 * 3 + b < 9" using assms(1,4) by (rule third_bound)
  have Y: "y div 3 * 3 + a < 9" using assms(2,3) by (rule third_bound)
  define q where "q = y div 3 * 3 + a"
  define r where "r = x div 3 * 3 + b"
  have j: "j = 9 * q + r" unfolding q_def r_def by (rule assms(5))
  have qr: "q < 9" "r < 9" using X Y unfolding q_def r_def by simp_all
  have "j < 81" using qr unfolding j by simp
  moreover have "j div 9 = q" using qr unfolding j by simp
  then have "j div 27 = y div 3" using assms(3) unfolding q_def by (simp add: div27)
  moreover have "j mod 9 = r" using qr unfolding j by simp
  then have "j mod 9 div 3 = x div 3" using assms(4) unfolding r_def by simp
  ultimately show ?thesis by simp
qed

lemma region_index_bwd:
  fixes x y j :: nat
  assumes "j div 27 = y div 3" "j mod 9 div 3 = x div 3"
  shows "j = 9 * (y div 3 * 3 + j div 9 mod 3) + (x div 3 * 3 + j mod 9 mod 3)"
proof -
  have "j div 9 div 3 * 3 + j div 9 mod 3 = j div 9" by (rule div_mult_mod_eq)
  then have q: "y div 3 * 3 + j div 9 mod 3 = j div 9" using assms(1) by (simp only: div27)
  have "j mod 9 div 3 * 3 + j mod 9 mod 3 = j mod 9" by (rule div_mult_mod_eq)
  then have r: "x div 3 * 3 + j mod 9 mod 3 = j mod 9" using assms(2) by (simp only:)
  have "9 * (j div 9) + j mod 9 = j" by (rule mult_div_mod_eq)
  then show ?thesis unfolding q r by simp
qed


lemma at_Some: "at cs j = Some c \<longleftrightarrow> j < length cs \<and> cs ! j = c"
  by (auto simp: at_def)

lemma excluded_cells:
  "Some c \<in> set (map (at cs) (filter (\<lambda>j. \<not> (i = j \<and> cellIs cs j [c])) js)) \<longleftrightarrow>
   (\<exists>j \<in> set js. j \<noteq> i \<and> j < length cs \<and> cs ! j = c)"
proof -
  have "Some c \<in> set (map (at cs) (filter (\<lambda>j. \<not> (i = j \<and> cellIs cs j [c])) js)) \<longleftrightarrow>
        (\<exists>j \<in> set js. \<not> (i = j \<and> cellIs cs j [c]) \<and> at cs j = Some c)"
    by (auto simp: image_iff)
  also have "\<dots> \<longleftrightarrow> (\<exists>j \<in> set js. j \<noteq> i \<and> j < length cs \<and> cs ! j = c)"
    unfolding at_Some cellIs_single by auto
  finally show ?thesis .
qed

lemma col_cells: "x < 9 \<Longrightarrow> j \<in> set (map (\<lambda>k. x + k * 9) [0..<9]) \<longleftrightarrow> j < 81 \<and> j mod 9 = x"
proof
  assume "x < 9" "j \<in> set (map (\<lambda>k. x + k * 9) [0..<9])"
  then obtain k where "k < 9" "j = x + k * 9" by auto
  with \<open>x < 9\<close> show "j < 81 \<and> j mod 9 = x" by simp
next
  assume "x < 9" "j < 81 \<and> j mod 9 = x"
  then have "j div 9 < 9" "j = x + j div 9 * 9" by auto
  then show "j \<in> set (map (\<lambda>k. x + k * 9) [0..<9])"
    by (auto simp: image_iff intro!: bexI[of _ "j div 9"])
qed

lemma checkColPlacement_cell:
  assumes "x < 9" "y < 9"
  shows "checkColPlacement p (rowLetters ! y) (int x + 1) [c] \<longleftrightarrow> colFree (cells p) (9 * y + x) c"
proof -
  have md: "(9 * y + x) mod 9 = x" using assms(1) by simp
  have flt: "filter (\<lambda>i. \<not> (9 * y + x = x + i * 9 \<and> cellIs (cells p) (9 * y + x) [c])) [0..<9] =
             filter (\<lambda>i. \<not> (9 * y + x = x + i * 9 \<and> cellIs (cells p) (x + i * 9) [c])) [0..<9]"
    by (rule filter_cong) (auto simp: add.commute mult.commute)
  have "map (\<lambda>i. at (cells p) (x + i * 9))
          (filter (\<lambda>i. \<not> (9 * y + x = x + i * 9 \<and> cellIs (cells p) (9 * y + x) [c])) [0..<9]) =
        map (at (cells p))
          (filter (\<lambda>j. \<not> (9 * y + x = j \<and> cellIs (cells p) j [c])) (map (\<lambda>k. x + k * 9) [0..<9]))"
    unfolding flt by (simp only: filter_map map_map o_def)
  then have "checkColPlacement p (rowLetters ! y) (int x + 1) [c] \<longleftrightarrow>
        \<not> (\<exists>j \<in> set (map (\<lambda>k. x + k * 9) [0..<9]). j \<noteq> 9 * y + x \<and> j < length (cells p) \<and> cells p ! j = c)"
    unfolding checkColPlacement_def toBaseZeroCoordinate_cell[OF assms]
    by (simp only: option.case prod.case Let_def arrIncludes_single excluded_cells)
  also have "\<dots> \<longleftrightarrow> colFree (cells p) (9 * y + x) c"
    unfolding colFree_def md Bex_def col_cells[OF assms(1)] by blast
  finally show ?thesis .
qed

lemma concat_map_mem:
  "z \<in> set (concat (map (\<lambda>i. map (f i) js) is)) \<longleftrightarrow> (\<exists>i \<in> set is. \<exists>j \<in> set js. z = f i j)"
  by auto

lemma region_cells:
  assumes "x < 9" "y < 9"
  shows "j \<in> set (regionCells x y) \<longleftrightarrow> j < 81 \<and> j div 27 = y div 3 \<and> j mod 9 div 3 = x div 3"
proof -
  have "j \<in> set (regionCells x y) \<longleftrightarrow>
        (\<exists>a < 3. \<exists>b < 3. j = 9 * (y div 3 * 3 + a) + (x div 3 * 3 + b))"
    unfolding regionCells_def Let_def fst_conv snd_conv concat_map_mem
    by (simp only: set_upt atLeastLessThan_iff Bex_def) blast
  also have "\<dots> \<longleftrightarrow> j < 81 \<and> j div 27 = y div 3 \<and> j mod 9 div 3 = x div 3"
  proof
    assume "\<exists>a < 3. \<exists>b < 3. j = 9 * (y div 3 * 3 + a) + (x div 3 * 3 + b)"
    then obtain a b where "a < 3" "b < 3" "j = 9 * (y div 3 * 3 + a) + (x div 3 * 3 + b)" by auto
    with assms show "j < 81 \<and> j div 27 = y div 3 \<and> j mod 9 div 3 = x div 3"
      by (rule region_index_fwd)
  next
    assume a: "j < 81 \<and> j div 27 = y div 3 \<and> j mod 9 div 3 = x div 3"
    then have "j = 9 * (y div 3 * 3 + j div 9 mod 3) + (x div 3 * 3 + j mod 9 mod 3)"
      by (intro region_index_bwd) simp_all
    moreover have "j div 9 mod 3 < 3" "j mod 9 mod 3 < 3" by simp_all
    ultimately show "\<exists>a < 3. \<exists>b < 3. j = 9 * (y div 3 * 3 + a) + (x div 3 * 3 + b)" by blast
  qed
  finally show ?thesis .
qed

lemma checkRegionPlacement_cell:
  assumes "x < 9" "y < 9"
  shows "checkRegionPlacement p (rowLetters ! y) (int x + 1) [c] = Inr (regionFree (cells p) (9 * y + x) c)"
proof -
  have dv: "(9 * y + x) div 27 = y div 3" "(9 * y + x) mod 9 div 3 = x div 3"
    using assms(1) by (simp_all add: cell_div27)
  have "checkRegionPlacement p (rowLetters ! y) (int x + 1) [c] =
        Inr (\<not> (\<exists>j \<in> set (regionCells x y). j \<noteq> 9 * y + x \<and> j < length (cells p) \<and> cells p ! j = c))"
    unfolding checkRegionPlacement_def toBaseZeroCoordinate_cell[OF assms]
    by (simp only: option.case prod.case Let_def arrIncludes_single excluded_cells)
  also have "(\<not> (\<exists>j \<in> set (regionCells x y). j \<noteq> 9 * y + x \<and> j < length (cells p) \<and> cells p ! j = c))
      \<longleftrightarrow> regionFree (cells p) (9 * y + x) c"
    unfolding regionFree_def dv Bex_def region_cells[OF assms] by blast
  finally show ?thesis .
qed

section \<open>Validation\<close>




text \<open>
  Claim C8. Every string of 81 characters, each of them the period or a digit from 0 to
  9, passes \<open>validate\<close>; so does a string that contains the digit 0.
\<close>

theorem validate_accepts:
  "length s = 81 \<Longrightarrow> set s \<subseteq> set ''.0123456789'' \<Longrightarrow>
   validate (Str s) = \<lparr>ok = True, error = None\<rparr>"
proof -
  assume len: "length s = 81" and cs: "set s \<subseteq> set ''.0123456789''"
  from len have ne: "s \<noteq> []" by auto
  have "c = CHR ''.'' \<or> isDigit c" if "c \<in> set s" for c
  proof -
    from that cs have "c \<in> set ''.0123456789''" by (rule subsetD[rotated])
    then show ?thesis unfolding isDigit_def by (simp only: set_simps insert_iff)
  qed
  then have "list_all (\<lambda>c. c = CHR ''.'' \<or> isDigit c) s"
    unfolding list_all_iff by blast
  with len ne show ?thesis by (simp add: validPuzzleRegex_def)
qed

theorem validate_accepts_witness:
  "length (replicate 81 CHR ''0'') = 81 \<and> set (replicate 81 CHR ''0'') \<subseteq> set ''.0123456789'' \<and>
   validate (Str (replicate 81 CHR ''0'')) = \<lparr>ok = True, error = None\<rparr>"
  using validate_accepts[of "replicate 81 CHR ''0''"] by simp

lemma cell_split: "(i::nat) < 81 \<Longrightarrow> i mod 9 < 9 \<and> i div 9 < 9 \<and> 9 * (i div 9) + i mod 9 = i"
  by auto

lemma checkRow_index:
  assumes "i < 81" "p = Str cs \<or> (p = Arr cs \<and> c \<noteq> CHR '','')"
  shows "checkRowPlacement p (rowLetters ! (i div 9)) (int (i mod 9) + 1) [c] \<longleftrightarrow> rowFree cs i c"
  using checkRowPlacement_cell[of "i mod 9" "i div 9" p cs c] cell_split[OF assms(1)] assms(2)
  by simp

lemma checkCol_index:
  assumes "i < 81"
  shows "checkColPlacement p (rowLetters ! (i div 9)) (int (i mod 9) + 1) [c] \<longleftrightarrow> colFree (cells p) i c"
  using checkColPlacement_cell[of "i mod 9" "i div 9" p c] cell_split[OF assms(1)]
  by simp

lemma checkRegion_index:
  assumes "i < 81"
  shows "checkRegionPlacement p (rowLetters ! (i div 9)) (int (i mod 9) + 1) [c] = Inr (regionFree (cells p) i c)"
  using checkRegionPlacement_cell[of "i mod 9" "i div 9" p c] cell_split[OF assms(1)]
  by simp

lemma checkPlacement_index:
  assumes "i < 81" "p = Str cs \<or> (p = Arr cs \<and> c \<noteq> CHR '','')"
  shows "checkPlacement p (rowLetters ! (i div 9)) (int (i mod 9) + 1) [c] = Inr (free cs i c)"
proof -
  have "cells p = cs" using assms(2) by auto
  then show ?thesis
    unfolding checkPlacement_def checkRow_index[OF assms] checkCol_index[OF assms(1)]
      checkRegion_index[OF assms(1)] free_def
    by auto
qed

lemma cellPasses_free: "i < 81 \<Longrightarrow> cellPasses s i \<longleftrightarrow> free s i (s ! i)"
  unfolding cellPasses_def toLetterNumberCoordinate_cell
  by (simp add: checkPlacement_index)

text \<open>
  Claim C6. For a grid of 81 cells, a row letter from A to I, a column number from 1 to 9
  and a digit from 1 to 9: if the cell at that row and column holds the digit and no
  other cell of the row does, \<open>checkRowPlacement\<close> answers valid, for a string and for
  an array alike.
\<close>

theorem checkRowPlacement_own_digit:
  assumes "length (cells p) = 81" and "r \<in> set ''ABCDEFGHI''" and "1 \<le> c" and "c \<le> 9"
    and "v \<in> set ''123456789''"
    and "toBaseZeroCoordinate r c = Some (x, y, idx)"
    and "cells p ! idx = v"
    and "\<forall>j < 9. 9 * y + j \<noteq> idx \<longrightarrow> cells p ! (9 * y + j) \<noteq> v"
  shows "checkRowPlacement p r c [v]"
proof -
  from assms(2) have "r \<in> set rowLetters" by (simp add: rowLetters_def)
  then obtain y' where y': "y' < 9" "r = rowLetters ! y'"
    by (auto simp: in_set_conv_nth length_rowLetters)
  define x' where "x' = nat (c - 1)"
  have x': "x' < 9" "c = int x' + 1" using assms(3,4) by (auto simp: x'_def)
  from assms(6) toBaseZeroCoordinate_cell[OF x'(1) y'(1)]
  have xy: "x = x'" "y = y'" "idx = 9 * y' + x'" unfolding y'(2) x'(2) by simp_all
  have comma: "v \<noteq> CHR '',''" using assms(5) by auto
  have "p = Str (cells p) \<or> (p = Arr (cells p) \<and> v \<noteq> CHR '','')"
    using comma by (cases p) simp_all
  then have "checkRowPlacement p r c [v] \<longleftrightarrow> rowFree (cells p) idx v"
    unfolding y'(2) x'(2) xy(3) by (rule checkRowPlacement_cell[OF x'(1) y'(1)])
  moreover have "rowFree (cells p) idx v"
    unfolding rowFree_def
  proof (intro allI impI)
    fix j assume j: "j < length (cells p)" "j \<noteq> idx \<and> j div 9 = idx div 9"
    have "idx div 9 = y" using x'(1) xy by simp
    moreover have "j = 9 * (j div 9) + j mod 9" by (rule mult_div_mod_eq[symmetric])
    ultimately have "j = 9 * y + j mod 9" using j(2) by simp
    moreover have "j mod 9 < 9" by simp
    ultimately show "cells p ! j \<noteq> v" using assms(8) j(2) by metis
  qed
  ultimately show ?thesis by simp
qed

theorem checkRowPlacement_own_digit_witness:
  "length ''..9..5.1.85.4....2432......1...69.83.9.....6.62.71...9......1945....4.37.4.3..6..'' = 81 \<and>
   ''..9..5.1.85.4....2432......1...69.83.9.....6.62.71...9......1945....4.37.4.3..6..'' ! 2 = CHR ''9'' \<and>
   checkRowPlacement
     (Str ''..9..5.1.85.4....2432......1...69.83.9.....6.62.71...9......1945....4.37.4.3..6..'')
     CHR ''A'' 3 ''9''"
proof -
  let ?g = "''..9..5.1.85.4....2432......1...69.83.9.....6.62.71...9......1945....4.37.4.3..6..''"
  have h1: "length (cells (Str ?g)) = 81" by simp
  have h2: "CHR ''A'' \<in> set ''ABCDEFGHI''" by simp
  have h5: "CHR ''9'' \<in> set ''123456789''" by simp
  have h6: "toBaseZeroCoordinate CHR ''A'' 3 = Some (2, 0, 2)"
    by (simp add: toBaseZeroCoordinate_def)
  have h7: "cells (Str ?g) ! 2 = CHR ''9''" by simp
  have h8: "\<forall>j < 9. 9 * 0 + j \<noteq> 2 \<longrightarrow> cells (Str ?g) ! (9 * 0 + j) \<noteq> CHR ''9''"
  proof (intro allI impI)
    fix j :: nat assume "j < 9" "9 * 0 + j \<noteq> 2"
    then have "j \<in> {0, 1, 3, 4, 5, 6, 7, 8}" by auto
    then show "cells (Str ?g) ! (9 * 0 + j) \<noteq> CHR ''9''" by auto
  qed
  from checkRowPlacement_own_digit[OF h1 h2 _ _ h5 h6 h7 h8] h1 h7 show ?thesis by simp
qed

section \<open>checkSolve\<close>

lemma validate_ok:
  "ok (validate (Str s)) \<longleftrightarrow> length s = 81 \<and> list_all (\<lambda>c. c = CHR ''.'' \<or> isDigit c) s"
  by (auto simp: failed_def validPuzzleRegex_def)

lemma isDigit_not_dot: "isDigit c \<Longrightarrow> c \<noteq> CHR ''.''"
  by (auto simp: isDigit_def)

lemma numberString_digit: "isDigit c \<Longrightarrow> numberString c = [c]"
  by (simp add: numberString_def)

lemma conflictsOf_nonempty: "conflictsOf cr cc cg \<noteq> [] \<longleftrightarrow> \<not> (cr \<and> cc \<and> cg)"
  by (simp add: conflictsOf_def)

lemma cellPasses_checks:
  assumes "i < 81"
  shows "cellPasses s i \<longleftrightarrow>
     checkRowPlacement (Str s) (rowLetters ! (i div 9)) (int (i mod 9) + 1) [s ! i] \<and>
     checkColPlacement (Str s) (rowLetters ! (i div 9)) (int (i mod 9) + 1) [s ! i] \<and>
     regionFree s i (s ! i)"
  unfolding cellPasses_def toLetterNumberCoordinate_cell[OF assms]
  by (auto simp: checkPlacement_def checkRegion_index[OF assms])

lemma checkSolveLoop_dot:
  "i < length s \<Longrightarrow> s ! i = CHR ''.'' \<Longrightarrow> checkSolveLoop s (i # is) = Inr notSolved"
  by (simp add: at_def notSolved_def)

lemma checkSolveLoop_digit:
  assumes "i < 81" "i < length s" "isDigit (s ! i)"
  shows "checkSolveLoop s (i # is) =
     (if cellPasses s i then checkSolveLoop s is
      else Inr \<lparr>solved = False,
                error = Some (''Cell '' @ [CHR 0x27, rowLetters ! (i div 9)] @
                              columnString (int (i mod 9) + 1) @ [CHR 0x27] @ '' contains conflicts.''),
                conflict = Some (conflictsOf
                   (checkRowPlacement (Str s) (rowLetters ! (i div 9)) (int (i mod 9) + 1) [s ! i])
                   (checkColPlacement (Str s) (rowLetters ! (i div 9)) (int (i mod 9) + 1) [s ! i])
                   (regionFree s i (s ! i)))\<rparr>)"
proof -
  have nd: "at s i \<noteq> Some CHR ''.''" using assms(2,3) isDigit_not_dot by (auto simp: at_def)
  have at: "at s i = Some (s ! i)" using assms(2) by (simp add: at_def)
  show ?thesis
    unfolding checkSolveLoop.simps toLetterNumberCoordinate_cell[OF assms(1)]
      cellPasses_checks[OF assms(1)]
    using nd
    by (simp add: at numberString_digit[OF assms(3)] checkRegion_index[OF assms(1)] Let_def
        conflictsOf_nonempty del: checkSolveLoop.simps)
qed

lemma checkSolveLoop_upto_dot:
  assumes "\<forall>i \<in> set js. i < 81 \<and> i < length s \<and> isDigit (s ! i)" "k < length s" "s ! k = CHR ''.''"
  shows "\<exists>r. checkSolveLoop s (js @ k # rest) = Inr r \<and> \<not> solved r \<and>
           (list_all (cellPasses s) js \<longrightarrow> r = notSolved) \<and>
           (\<not> list_all (cellPasses s) js \<longrightarrow> conflict r \<noteq> None)"
  using assms(1)
proof (induction js)
  case Nil
  then show ?case using checkSolveLoop_dot[OF assms(2,3)] by (simp add: notSolved_def)
next
  case (Cons j js)
  then have j: "j < 81" "j < length s" "isDigit (s ! j)" by auto
  show ?case
  proof (cases "cellPasses s j")
    case True
    then show ?thesis using Cons checkSolveLoop_digit[OF j] by simp
  next
    case False
    then show ?thesis using checkSolveLoop_digit[OF j] by simp
  qed
qed

lemma checkSolveLoop_all_pass:
  assumes "\<forall>i \<in> set js. i < 81 \<and> i < length s \<and> isDigit (s ! i) \<and> cellPasses s i"
  shows "checkSolveLoop s js = Inr \<lparr>solved = True, error = None, conflict = None\<rparr>"
  using assms
proof (induction js)
  case Nil
  then show ?case by simp
next
  case (Cons j js)
  then have j: "j < 81" "j < length s" "isDigit (s ! j)" "cellPasses s j" by auto
  then show ?case using Cons checkSolveLoop_digit[OF j(1,2,3)] by simp
qed


lemma first_dot:
  assumes "CHR ''.'' \<in> set s"
  defines "k \<equiv> length (takeWhile (\<lambda>c. c \<noteq> CHR ''.'') s)"
  shows "k < length s" "s ! k = CHR ''.''" "\<forall>i < k. s ! i \<noteq> CHR ''.''"
proof -
  have "k \<noteq> length s"
  proof
    assume "k = length s"
    then have "takeWhile (\<lambda>c. c \<noteq> CHR ''.'') s = s"
      unfolding k_def using takeWhile_eq_take[of "\<lambda>c. c \<noteq> CHR ''.''" s] by simp
    then have "\<forall>c \<in> set s. c \<noteq> CHR ''.''" by (simp only: takeWhile_eq_all_conv)
    with assms(1) show False by blast
  qed
  moreover have "k \<le> length s" unfolding k_def by (rule length_takeWhile_le)
  ultimately show k: "k < length s" by simp
  show "s ! k = CHR ''.''" using nth_length_takeWhile[of "\<lambda>c. c \<noteq> CHR ''.''" s] k
    unfolding k_def by simp
  show "\<forall>i < k. s ! i \<noteq> CHR ''.''"
  proof (intro allI impI)
    fix i assume i: "i < k"
    then have "takeWhile (\<lambda>c. c \<noteq> CHR ''.'') s ! i \<in> set (takeWhile (\<lambda>c. c \<noteq> CHR ''.'') s)"
      unfolding k_def by (rule nth_mem)
    then have "takeWhile (\<lambda>c. c \<noteq> CHR ''.'') s ! i \<noteq> CHR ''.''" by (rule set_takeWhileD[THEN conjunct2])
    then show "s ! i \<noteq> CHR ''.''" using i unfolding k_def by (simp add: takeWhile_nth)
  qed
qed

text \<open>
  Claim C5, as stated, fails: the loop of \<open>checkSolve\<close> tests each cell for emptiness and
  then for conflicts before it goes to the next cell, so a conflict in a cell before the
  first empty one is reported, with its conflict list.
\<close>

theorem checkSolve_unsolved_counterexample:
  "ok (validate (Str ''11...............................................................................'')) \<and>
   CHR ''.'' \<in> set ''11...............................................................................'' \<and>
   checkSolve ''11...............................................................................''
     = Inr \<lparr>solved = False,
            error = Some (''Cell '' @ [CHR 0x27] @ ''A1'' @ [CHR 0x27] @ '' contains conflicts.''),
            conflict = Some [''row'', ''region'']\<rparr>"
  by code_simp

text \<open>
  Claim C5, amended. For every puzzle string that passes \<open>validate\<close> and contains an empty
  marker, \<open>checkSolve\<close> answers that the puzzle is not solved. If every cell before the
  first empty marker passes the row, column and region checks for its own digit, the
  error is "Puzzle is not solved" and there is no conflict list; otherwise the result
  carries a conflict list.
\<close>

theorem checkSolve_unsolved:
  assumes "ok (validate (Str s))" and "CHR ''.'' \<in> set s"
  shows "\<exists>r. checkSolve s = Inr r \<and> \<not> solved r \<and>
           (list_all (cellPasses s) [0..<length (takeWhile (\<lambda>c. c \<noteq> CHR ''.'') s)] \<longrightarrow>
              r = \<lparr>solved = False, error = Some ''Puzzle is not solved'', conflict = None\<rparr>) \<and>
           (\<not> list_all (cellPasses s) [0..<length (takeWhile (\<lambda>c. c \<noteq> CHR ''.'') s)] \<longrightarrow>
              conflict r \<noteq> None)"
proof -
  define k where "k = length (takeWhile (\<lambda>c. c \<noteq> CHR ''.'') s)"
  note fd = first_dot[OF assms(2), folded k_def]
  from assms(1) have len: "length s = 81" and chars: "list_all (\<lambda>c. c = CHR ''.'' \<or> isDigit c) s"
    unfolding validate_ok by simp_all
  have "[0..<length s] = [0..<k] @ [k..<length s]"
    using fd(1) upt_add_eq_append[of 0 k "length s - k"] by simp
  then have split: "[0..<length s] = [0..<k] @ k # [Suc k..<length s]"
    using fd(1) by (simp add: upt_conv_Cons)
  have pre: "\<forall>i \<in> set [0..<k]. i < 81 \<and> i < length s \<and> isDigit (s ! i)"
  proof
    fix i assume "i \<in> set [0..<k]"
    then have i: "i < k" by simp
    then have "i < length s" using fd(1) by simp
    moreover from this chars have "s ! i = CHR ''.'' \<or> isDigit (s ! i)"
      by (simp add: list_all_length)
    ultimately show "i < 81 \<and> i < length s \<and> isDigit (s ! i)" using fd(3) i len by auto
  qed
  from checkSolveLoop_upto_dot[OF pre fd(1,2), of "[Suc k..<length s]"] assms(1)
  show ?thesis unfolding checkSolve_def Let_def split k_def notSolved_def by simp
qed

theorem checkSolve_unsolved_witness:
  "checkSolve ''76...............................................................................''
     = Inr \<lparr>solved = False, error = Some ''Puzzle is not solved'', conflict = None\<rparr> \<and>
   (\<exists>r. checkSolve ''11...............................................................................''
      = Inr r \<and> \<not> solved r \<and> conflict r \<noteq> None)"
proof -
  let ?s = "''76...............................................................................''"
  let ?t = "''11...............................................................................''"
  have h1: "ok (validate (Str ?s))" by code_simp
  have h2: "CHR ''.'' \<in> set ?s" by simp
  have h3: "list_all (cellPasses ?s) [0..<length (takeWhile (\<lambda>c. c \<noteq> CHR ''.'') ?s)]"
    by code_simp
  have k1: "ok (validate (Str ?t))" by code_simp
  have k2: "CHR ''.'' \<in> set ?t" by simp
  have k3: "\<not> list_all (cellPasses ?t) [0..<length (takeWhile (\<lambda>c. c \<noteq> CHR ''.'') ?t)]"
    by code_simp
  from checkSolve_unsolved[OF h1 h2] h3 checkSolve_unsolved[OF k1 k2] k3 show ?thesis by blast
qed

section \<open>What the solver leaves in the array\<close>

lemma getNextEmptyCell_coords:
  assumes "getNextEmptyCell (Arr a) = Inr (Some e)"
  shows "toLetterNumberCoordinate (index e) = (Some (row e), col e)"
    and "possibleValues (Arr a) (row e) (col e) digitChars = Inr (possible e)"
proof -
  from assms obtain i r c vs where
    sc: "scanEmpty a 0 = Some i" and tl: "toLetterNumberCoordinate i = (Some r, c)"
    and pv: "possibleValues (Arr a) r c digitChars = Inr vs"
    and e: "e = \<lparr>row = r, col = c, index = i, possible = vs\<rparr>"
    unfolding getNextEmptyCell_def
    by (auto simp del: possibleValues.simps split: option.splits prod.splits sum.splits)
  show "toLetterNumberCoordinate (index e) = (Some (row e), col e)" using tl e by simp
  show "possibleValues (Arr a) (row e) (col e) digitChars = Inr (possible e)" using pv e by simp
qed

lemma possibleValues_mem:
  "possibleValues p r c ds = Inr vs \<Longrightarrow>
   v \<in> set vs \<longleftrightarrow> v \<in> set ds \<and> checkPlacement p r c [v] = Inr True"
  by (induction ds arbitrary: vs) (auto split: sum.splits if_splits)

lemma finish_result:
  assumes "finish a i = Inr (res, a')"
  shows "a' = (if CHR ''.'' \<in> set a then a[i := CHR ''.''] else a)"
    and "res = (if CHR ''.'' \<in> set a' then Error ''Puzzle cannot be solved'' else Solution a')"
proof -
  from assms obtain nxt where g: "getNextEmptyCell (Arr a) = Inr nxt"
    unfolding finish_def by (auto split: sum.splits)
  have "nxt \<noteq> None \<longleftrightarrow> CHR ''.'' \<in> set a"
    using g getNextEmptyCell_None[of a] by auto
  with assms g show "a' = (if CHR ''.'' \<in> set a then a[i := CHR ''.''] else a)"
    unfolding finish_def by (auto simp: Let_def split: if_splits)
  from assms g show "res = (if CHR ''.'' \<in> set a' then Error ''Puzzle cannot be solved'' else Solution a')"
    unfolding finish_def by (auto simp: Let_def split: if_splits)
qed

lemma solve_results_induct:
  fixes P :: "char list \<Rightarrow> SolveResult \<Rightarrow> char list \<Rightarrow> bool"
    and Q :: "char list \<Rightarrow> char \<Rightarrow> int \<Rightarrow> nat \<Rightarrow> string \<Rightarrow> char list \<Rightarrow> bool"
  assumes full: "\<And>a. getNextEmptyCell (Arr a) = Inr None \<Longrightarrow> P a (Solution a) a"
    and single: "\<And>a e r1 a1 res a'.
        \<lbrakk>getNextEmptyCell (Arr a) = Inr (Some e); length (possible e) = 1;
         solve_arr (a[index e := possible e ! 0]) = Inr (r1, a1);
         P (a[index e := possible e ! 0]) r1 a1;
         finish a1 (index e) = Inr (res, a')\<rbrakk> \<Longrightarrow> P a res a'"
    and loop: "\<And>a e a1 res a'.
        \<lbrakk>getNextEmptyCell (Arr a) = Inr (Some e); length (possible e) \<noteq> 1;
         tryValues a (row e) (col e) (index e) (possible e) = Inr a1;
         Q a (row e) (col e) (index e) (possible e) a1;
         finish a1 (index e) = Inr (res, a')\<rbrakk> \<Longrightarrow> P a res a'"
    and nomore: "\<And>a r c i. Q a r c i [] a"
    and skip: "\<And>a r c i v vs a'.
        \<lbrakk>checkPlacement (Arr a) r c [v] = Inr False; tryValues a r c i vs = Inr a';
         Q a r c i vs a'\<rbrakk> \<Longrightarrow> Q a r c i (v # vs) a'"
    and place: "\<And>a r c i v vs r1 a1 a'.
        \<lbrakk>checkPlacement (Arr a) r c [v] = Inr True;
         solve_arr (a[i := v]) = Inr (r1, a1); P (a[i := v]) r1 a1;
         tryValues a1 r c i vs = Inr a'; Q a1 r c i vs a'\<rbrakk> \<Longrightarrow> Q a r c i (v # vs) a'"
  shows "\<forall>res a'. solve_arr a = Inr (res, a') \<longrightarrow> P a res a'"
    and "\<forall>b'. tryValues b r c i vs = Inr b' \<longrightarrow> Q b r c i vs b'"
proof (induction a and b r c i vs rule: solve_arr_tryValues.induct)
  case (1 a)
  show ?case
  proof (intro allI impI)
    fix res a'
    assume eq: "solve_arr a = Inr (res, a')"
    from eq obtain e where g: "getNextEmptyCell (Arr a) = Inr e"
      by (auto split: sum.splits)
    show "P a res a'"
    proof (cases e)
      case None
      with eq g have "res = Solution a" "a' = a" by auto
      with full[of a] g None show ?thesis by simp
    next
      case (Some x)
      show ?thesis
      proof (cases "length (possible x) = 1")
        case True
        from eq g Some True obtain r1 a1 where
          s1: "solve_arr (a[index x := possible x ! 0]) = Inr (r1, a1)"
          and f: "finish a1 (index x) = Inr (res, a')"
          by (auto split: sum.splits prod.splits)
        from 1(1)[OF g Some True] s1 have "P (a[index x := possible x ! 0]) r1 a1" by blast
        with single[OF g[unfolded Some] True s1 _ f] show ?thesis by blast
      next
        case False
        from eq g Some False obtain a1 where
          s1: "tryValues a (row x) (col x) (index x) (possible x) = Inr a1"
          and f: "finish a1 (index x) = Inr (res, a')"
          by (auto split: sum.splits prod.splits)
        from 1(2)[OF g Some False] s1 have "Q a (row x) (col x) (index x) (possible x) a1" by blast
        with loop[OF g[unfolded Some] False s1 _ f] show ?thesis by blast
      qed
    qed
  qed
next
  case (2 a r c i)
  then show ?case using nomore by simp
next
  case (3 a r c i v vs)
  show ?case
  proof (intro allI impI)
    fix b'
    assume eq: "tryValues a r c i (v # vs) = Inr b'"
    from eq obtain okv where ck: "checkPlacement (Arr a) r c [v] = Inr okv"
      by (auto split: sum.splits)
    show "Q a r c i (v # vs) b'"
    proof (cases okv)
      case True
      then have okT: "okv = True" by simp
      from eq ck True obtain r1 a1 where
        s1: "solve_arr (a[i := v]) = Inr (r1, a1)"
        and t: "tryValues a1 r c i vs = Inr b'"
        by (auto split: sum.splits prod.splits)
      from 3(1)[OF ck okT] s1 have p: "P (a[i := v]) r1 a1" by blast
      from 3(2)[OF ck okT s1 refl] t have q: "Q a1 r c i vs b'" by blast
      from place[OF ck[unfolded okT] s1 p t q] show ?thesis .
    next
      case False
      then have okF: "okv = False" by simp
      from eq ck False have t: "tryValues a r c i vs = Inr b'" by auto
      with 3(3)[OF ck okF] have "Q a r c i vs b'" by blast
      from skip[OF ck[unfolded okF] t this] show ?thesis .
    qed
  qed
qed

lemma dot_in_set: "CHR ''.'' \<in> set a \<longleftrightarrow> (\<exists>j < length a. a ! j = CHR ''.'')"
  by (auto simp: in_set_conv_nth)

lemma finish_frame:
  assumes f: "finish a1 i = Inr (res, a')" and i: "i < length a" "a ! i = CHR ''.''"
    and len: "length a1 = length a"
    and off: "\<forall>j < length a. j \<noteq> i \<longrightarrow> a ! j \<noteq> CHR ''.'' \<longrightarrow> a1 ! j = a ! j"
    and dig: "\<forall>j < length a. j \<noteq> i \<longrightarrow> a1 ! j = a ! j \<or> a1 ! j \<in> set digitChars"
    and own: "a1 ! i = CHR ''.'' \<or> a1 ! i \<in> set digitChars"
    and undo: "CHR ''.'' \<in> set a1 \<longrightarrow> (\<forall>j < length a. j \<noteq> i \<longrightarrow> a1 ! j = a ! j)"
  shows "solveFrame a res a'"
proof -
  note fr = finish_result[OF f]
  have a': "a' = (if CHR ''.'' \<in> set a1 then a1[i := CHR ''.''] else a1)" by (rule fr(1))
  have l: "length a' = length a" using a' len by simp
  have nth: "\<And>j. j < length a \<Longrightarrow> j \<noteq> i \<Longrightarrow> a' ! j = a1 ! j" using a' by simp
  have own': "a' ! i = CHR ''.'' \<or> a' ! i \<in> set digitChars"
    using a' own i(1) len by (cases "CHR ''.'' \<in> set a1") simp_all
  have c1: "\<forall>j < length a. a ! j \<noteq> CHR ''.'' \<longrightarrow> a' ! j = a ! j"
    using off nth i(2) by metis
  have c2: "\<forall>j < length a. a' ! j = a ! j \<or> a' ! j \<in> set digitChars"
  proof (intro allI impI)
    fix j assume j: "j < length a"
    show "a' ! j = a ! j \<or> a' ! j \<in> set digitChars"
    proof (cases "j = i")
      case True
      then show ?thesis using own' i(2) by auto
    next
      case False
      then show ?thesis using dig nth j by metis
    qed
  qed
  have c3: "CHR ''.'' \<in> set a' \<longrightarrow> a' = a"
  proof
    assume d: "CHR ''.'' \<in> set a'"
    have d1: "CHR ''.'' \<in> set a1" using d a' by (cases "CHR ''.'' \<in> set a1") simp_all
    then have eq: "a' = a1[i := CHR ''.'']" using a' by simp
    show "a' = a"
    proof (rule nth_equalityI)
      show "length a' = length a" by (rule l)
      fix j assume "j < length a'"
      then have j: "j < length a" using l by simp
      show "a' ! j = a ! j"
      proof (cases "j = i")
        case True
        then show ?thesis using eq i len by simp
      next
        case False
        then show ?thesis using undo d1 nth j by metis
      qed
    qed
  qed
  show ?thesis unfolding solveFrame_def using l c1 c2 c3 fr(2) by simp
qed

lemma solve_frame:
  shows "\<forall>res a'. solve_arr a = Inr (res, a') \<longrightarrow> solveFrame a res a'"
    and "\<forall>b'. tryValues b r c i vs = Inr b' \<longrightarrow>
           (set vs \<subseteq> set digitChars \<longrightarrow> i < length b \<longrightarrow> tryFrame b i vs b')"
proof (induction a and b r c i vs rule: solve_results_induct)
  case (1 a)
  then have "CHR ''.'' \<notin> set a" by (simp add: getNextEmptyCell_None)
  then show ?case by (simp add: solveFrame_def)
next
  case (2 a e r1 a1 res a')
  note gs = getNextEmptyCell_Some[OF 2(1)]
  let ?i = "index e" and ?v = "possible e ! 0"
  have "?v \<in> set (possible e)" using 2(2) by simp
  then have v: "?v \<in> set digitChars" using gs(4) by blast
  then have vd: "?v \<noteq> CHR ''.''" by (rule digit_not_dot)
  note ih = 2(4)[unfolded solveFrame_def]
  have len: "length a1 = length a" using ih by simp
  have keep: "\<And>j. j < length a \<Longrightarrow> a[?i := ?v] ! j \<noteq> CHR ''.'' \<Longrightarrow> a1 ! j = a[?i := ?v] ! j"
    using ih by simp
  have dg: "\<And>j. j < length a \<Longrightarrow> a1 ! j = a[?i := ?v] ! j \<or> a1 ! j \<in> set digitChars"
    using ih by simp
  have own: "a1 ! ?i = ?v" using keep[of ?i] gs(1) vd by simp
  show ?case
  proof (rule finish_frame[OF 2(5) gs(1,2) len])
    show "\<forall>j < length a. j \<noteq> ?i \<longrightarrow> a ! j \<noteq> CHR ''.'' \<longrightarrow> a1 ! j = a ! j"
      using keep by (metis nth_list_update_neq)
    show "\<forall>j < length a. j \<noteq> ?i \<longrightarrow> a1 ! j = a ! j \<or> a1 ! j \<in> set digitChars"
      using dg by (metis nth_list_update_neq)
    show "a1 ! ?i = CHR ''.'' \<or> a1 ! ?i \<in> set digitChars" using own v by simp
    show "CHR ''.'' \<in> set a1 \<longrightarrow> (\<forall>j < length a. j \<noteq> ?i \<longrightarrow> a1 ! j = a ! j)"
      using ih by auto
  qed
next
  case (3 a e a1 res a')
  note gs = getNextEmptyCell_Some[OF 3(1)]
  from 3(4) gs(1,4) have ih: "tryFrame a (index e) (possible e) a1" by simp
  note ih' = ih[unfolded tryFrame_def]
  show ?case
  proof (rule finish_frame[OF 3(5) gs(1,2)])
    show "length a1 = length a" using ih' by simp
    show "\<forall>j < length a. j \<noteq> index e \<longrightarrow> a ! j \<noteq> CHR ''.'' \<longrightarrow> a1 ! j = a ! j"
      using ih' by simp
    show "\<forall>j < length a. j \<noteq> index e \<longrightarrow> a1 ! j = a ! j \<or> a1 ! j \<in> set digitChars"
      using ih' by simp
    show "a1 ! index e = CHR ''.'' \<or> a1 ! index e \<in> set digitChars"
      using ih' gs(2,4) by auto
    show "CHR ''.'' \<in> set a1 \<longrightarrow> (\<forall>j < length a. j \<noteq> index e \<longrightarrow> a1 ! j = a ! j)"
      using ih' by simp
  qed
next
  case (4 a r c i)
  show ?case by (simp add: tryFrame_def)
next
  case (5 a r c i v vs a')
  show ?case
  proof (intro impI)
    assume "set (v # vs) \<subseteq> set digitChars" "i < length a"
    with 5(3) have "tryFrame a i vs a'" by simp
    then show "tryFrame a i (v # vs) a'" unfolding tryFrame_def by auto
  qed
next
  case (6 a r c i v vs r1 a1 a')
  show ?case
  proof (intro impI)
    assume vs: "set (v # vs) \<subseteq> set digitChars" and i: "i < length a"
    then have v: "v \<in> set digitChars" by simp
    then have vd: "v \<noteq> CHR ''.''" by (rule digit_not_dot)
    note p = 6(3)[unfolded solveFrame_def]
    have len1: "length a1 = length a" using p by simp
    from 6(5) vs i len1 have q0: "tryFrame a1 i vs a'" by simp
    note q = q0[unfolded tryFrame_def]
    have len: "length a' = length a" using q len1 by simp
    have keep: "\<And>j. j < length a \<Longrightarrow> a[i := v] ! j \<noteq> CHR ''.'' \<Longrightarrow> a1 ! j = a[i := v] ! j"
      using p by simp
    have own1: "a1 ! i = v" using keep[of i] i vd by simp
    have vsd: "\<And>w. w \<in> set vs \<Longrightarrow> w \<noteq> CHR ''.''" using vs digit_not_dot by auto
    have c1: "\<forall>j < length a. j \<noteq> i \<longrightarrow> a ! j \<noteq> CHR ''.'' \<longrightarrow> a' ! j = a ! j"
    proof (intro allI impI)
      fix j assume j: "j < length a" "j \<noteq> i" "a ! j \<noteq> CHR ''.''"
      then have "a1 ! j = a ! j" using keep[of j] by simp
      moreover from this j q len1 have "a' ! j = a1 ! j" by simp
      ultimately show "a' ! j = a ! j" by simp
    qed
    have c2: "\<forall>j < length a. j \<noteq> i \<longrightarrow> a' ! j = a ! j \<or> a' ! j \<in> set digitChars"
    proof (intro allI impI)
      fix j assume j: "j < length a" "j \<noteq> i"
      from p have "\<forall>j < length a. a1 ! j = a[i := v] ! j \<or> a1 ! j \<in> set digitChars" by simp
      with j have "a1 ! j = a ! j \<or> a1 ! j \<in> set digitChars" by (metis nth_list_update_neq)
      moreover from q len1 have "\<forall>j < length a. j \<noteq> i \<longrightarrow> a' ! j = a1 ! j \<or> a' ! j \<in> set digitChars"
        by simp
      with j have "a' ! j = a1 ! j \<or> a' ! j \<in> set digitChars" by blast
      ultimately show "a' ! j = a ! j \<or> a' ! j \<in> set digitChars" by auto
    qed
    have c3: "a' ! i = a ! i \<or> a' ! i \<in> set (v # vs)" using q own1 by auto
    have c4: "CHR ''.'' \<in> set a' \<longrightarrow> (\<forall>j < length a. j \<noteq> i \<longrightarrow> a' ! j = a ! j)"
    proof (intro impI allI)
      fix j assume d: "CHR ''.'' \<in> set a'" and j: "j < length a" "j \<noteq> i"
      have d1: "CHR ''.'' \<in> set a1"
      proof (rule ccontr)
        assume n: "CHR ''.'' \<notin> set a1"
        from d obtain m where m: "m < length a'" "a' ! m = CHR ''.''" unfolding dot_in_set by blast
        have m1: "a1 ! m \<noteq> CHR ''.''" using n m(1) len len1 nth_mem[of m a1] by metis
        show False
        proof (cases "m = i")
          case True
          then show ?thesis using q m(2) own1 vd vsd by auto
        next
          case False
          then have "a' ! m = a1 ! m" using q m(1) m1 len len1 by simp
          then show ?thesis using m(2) m1 by simp
        qed
      qed
      then have "a1 = a[i := v]" using p by simp
      moreover have "a' ! j = a1 ! j" using q d j len1 by simp
      ultimately show "a' ! j = a ! j" using j by simp
    qed
    show "tryFrame a i (v # vs) a'" unfolding tryFrame_def using len c1 c2 c3 c4 by simp
  qed
qed


lemma solve_arr_full: "CHR ''.'' \<notin> set a \<Longrightarrow> solve_arr a = Inr (Solution a, a)"
  by (subst solve_arr.simps) (simp add: getNextEmptyCell_None[THEN iffD2])

lemma solve_string:
  assumes "solve (Str x) True = Inr (Solution s, a)"
  shows "ok (validate (Str x))" and "solve_arr x = Inr (Solution s, a)"
proof -
  show v: "ok (validate (Str x))"
    using assms unfolding solve_def Let_def by (auto split: if_splits)
  then show "solve_arr x = Inr (Solution s, a)"
    using assms unfolding solve_def Let_def by (simp del: validate.simps)
qed

text \<open>
  Claim C3. If the call \<open>solve(a, false)\<close> on an array returns an error, the array is as
  it was when the call was made: every placement of the failed search, also those of the
  calls below, has been undone.
\<close>

theorem solve_error_restores:
  "solve (Arr a) False = Inr (Error e, a') \<Longrightarrow> a' = a"
proof -
  assume "solve (Arr a) False = Inr (Error e, a')"
  then have "solve_arr a = Inr (Error e, a')" by (simp add: solve_def Let_def del: validate.simps)
  with solve_frame(1)[of a] have "solveFrame a (Error e) a'" by blast
  then show "a' = a" unfolding solveFrame_def by (auto split: if_splits)
qed

theorem solve_error_restores_witness:
  "\<exists>e a'. solve (Arr ''1234567...........................9...........................9..................'') False = Inr (Error e, a') \<and>
      a' = ''1234567...........................9...........................9..................''"
proof -
  have h: "solve (Arr ''1234567...........................9...........................9..................'') False
      = Inr (Error ''Puzzle cannot be solved'',
             ''1234567...........................9...........................9..................'')"
    by code_simp
  from solve_error_restores[OF h] h show ?thesis by blast
qed

text \<open>
  Claim C10. If \<open>solve\<close> returns a solution for a puzzle string, every cell of the puzzle
  that is not the empty marker is at the same place in the solution.
\<close>

theorem solve_keeps_givens:
  assumes "solve (Str p) True = Inr (Solution s, a)" and "i < 81" and "p ! i \<noteq> CHR ''.''"
  shows "s ! i = p ! i"
proof -
  note st = solve_string[OF assms(1)]
  from st(1) have len: "length p = 81" unfolding validate_ok by simp
  from solve_frame(1)[of p] st(2) have fr: "solveFrame p (Solution s) a" by blast
  then have "s = a" unfolding solveFrame_def by (auto split: if_splits)
  moreover from fr have "\<forall>j < length p. p ! j \<noteq> CHR ''.'' \<longrightarrow> a ! j = p ! j"
    unfolding solveFrame_def by simp
  ultimately show ?thesis using assms(2,3) len by simp
qed

theorem solve_keeps_givens_witness:
  "solve (Str ''..92354188514963724321789561745692833958.276162871354928365719451692483794738162.'') True
     = Inr (Solution ''769235418851496372432178956174569283395842761628713549283657194516924837947381625'',
            ''769235418851496372432178956174569283395842761628713549283657194516924837947381625'') \<and>
   (2::nat) < 81 \<and>
   ''..92354188514963724321789561745692833958.276162871354928365719451692483794738162.'' ! 2 \<noteq> CHR ''.'' \<and>
   ''769235418851496372432178956174569283395842761628713549283657194516924837947381625'' ! 2
     = ''..92354188514963724321789561745692833958.276162871354928365719451692483794738162.'' ! 2"
proof -
  have h: "solve (Str ''..92354188514963724321789561745692833958.276162871354928365719451692483794738162.'') True
     = Inr (Solution ''769235418851496372432178956174569283395842761628713549283657194516924837947381625'',
            ''769235418851496372432178956174569283395842761628713549283657194516924837947381625'')"
    by code_simp
  have h3: "''..92354188514963724321789561745692833958.276162871354928365719451692483794738162.'' ! 2 \<noteq> CHR ''.''"
    by simp
  from solve_keeps_givens[OF h _ h3] h h3 show ?thesis by simp
qed

text \<open>
  Claim C7. If \<open>solve\<close> returns the solution \<open>s\<close> for a puzzle string \<open>x\<close>, then \<open>solve\<close>
  returns the solution \<open>s\<close> for \<open>s\<close>, and the two results are equal.
\<close>

theorem solve_idempotent:
  assumes "solve (Str x) True = Inr (Solution s, a)"
  shows "solve (Str s) True = Inr (Solution s, s) \<and> solve (Str s) True = solve (Str x) True"
proof -
  note st = solve_string[OF assms]
  from st(1) have len: "length x = 81" and chars: "list_all (\<lambda>c. c = CHR ''.'' \<or> isDigit c) x"
    unfolding validate_ok by simp_all
  from solve_frame(1)[of x] st(2) have fr: "solveFrame x (Solution s) a" by blast
  then have sa: "s = a" and nodot: "CHR ''.'' \<notin> set a" and la: "length a = 81"
    and cells: "\<forall>j < length x. a ! j = x ! j \<or> a ! j \<in> set digitChars"
    unfolding solveFrame_def using len by (auto split: if_splits)
  have "list_all (\<lambda>c. c = CHR ''.'' \<or> isDigit c) a"
    unfolding list_all_length
  proof (intro allI impI)
    fix j assume j: "j < length a"
    then have "a ! j = x ! j \<or> a ! j \<in> set digitChars" using cells la len by simp
    moreover have "x ! j = CHR ''.'' \<or> isDigit (x ! j)"
      using chars j la len by (simp add: list_all_length)
    moreover have "\<And>c. c \<in> set digitChars \<Longrightarrow> isDigit c"
      by (auto simp: digitChars_def isDigit_def)
    ultimately show "a ! j = CHR ''.'' \<or> isDigit (a ! j)" by auto
  qed
  with la have "ok (validate (Str a))" unfolding validate_ok by simp
  then have "solve (Str a) True = solve_arr a"
    unfolding solve_def Let_def by (simp del: validate.simps)
  also have "\<dots> = Inr (Solution a, a)" using nodot by (rule solve_arr_full)
  finally show ?thesis using assms sa by simp
qed

theorem solve_idempotent_witness:
  "solve (Str ''..92354188514963724321789561745692833958.276162871354928365719451692483794738162.'') True
     = Inr (Solution ''769235418851496372432178956174569283395842761628713549283657194516924837947381625'',
            ''769235418851496372432178956174569283395842761628713549283657194516924837947381625'') \<and>
   solve (Str ''769235418851496372432178956174569283395842761628713549283657194516924837947381625'') True
     = Inr (Solution ''769235418851496372432178956174569283395842761628713549283657194516924837947381625'',
            ''769235418851496372432178956174569283395842761628713549283657194516924837947381625'')"
proof -
  have h: "solve (Str ''..92354188514963724321789561745692833958.276162871354928365719451692483794738162.'') True
     = Inr (Solution ''769235418851496372432178956174569283395842761628713549283657194516924837947381625'',
            ''769235418851496372432178956174569283395842761628713549283657194516924837947381625'')"
    by code_simp
  from solve_idempotent[OF h] h show ?thesis by simp
qed

section \<open>The solver keeps the grid consistent\<close>

lemma peer_sym: "peer i j \<Longrightarrow> peer j i"
  unfolding peer_def by auto

lemma free_peer:
  assumes "length a \<le> 81"
  shows "free a i c \<longleftrightarrow> (\<forall>j < length a. peer i j \<longrightarrow> a ! j \<noteq> c)"
proof -
  have "\<And>j. j < length a \<Longrightarrow> j < 81" using assms by simp
  then show ?thesis unfolding free_def rowFree_def colFree_def regionFree_def peer_def by blast
qed

lemma consistent_place:
  assumes len: "length a = 81" and con: "consistent a" and fr: "free a i v"
  shows "consistent (a[i := v])"
  unfolding consistent_def
proof (intro allI impI)
  fix m assume m: "m < length (a[i := v])" and nd: "a[i := v] ! m \<noteq> CHR ''.''"
  have le: "length a \<le> 81" "length (a[i := v]) \<le> 81" using len by simp_all
  show "free (a[i := v]) m (a[i := v] ! m)"
    unfolding free_peer[OF le(2)]
  proof (intro allI impI)
    fix j assume j: "j < length (a[i := v])" and p: "peer m j"
    then have jm: "j \<noteq> m" by (simp add: peer_def)
    show "a[i := v] ! j \<noteq> a[i := v] ! m"
    proof (cases "m = i")
      case True
      then have "a[i := v] ! m = v" using m by simp
      moreover have "a[i := v] ! j = a ! j" using jm True by simp
      moreover have "a ! j \<noteq> v" using fr[unfolded free_peer[OF le(1)]] j p True by simp
      ultimately show ?thesis by simp
    next
      case False
      then have am: "a[i := v] ! m = a ! m" by simp
      show ?thesis
      proof (cases "j = i")
        case True
        then have "a[i := v] ! j = v" using j by simp
        moreover have "a ! m \<noteq> v"
          using fr[unfolded free_peer[OF le(1)]] m peer_sym[OF p] True by simp
        ultimately show ?thesis using am by simp
      next
        case False
        then have "a[i := v] ! j = a ! j" by simp
        moreover have "free a m (a ! m)" using con m nd am unfolding consistent_def by simp
        then have "a ! j \<noteq> a ! m" unfolding free_peer[OF le(1)] using j p by simp
        ultimately show ?thesis using am by simp
      qed
    qed
  qed
qed

lemma consistent_clear:
  assumes len: "length a = 81" and con: "consistent a"
  shows "consistent (a[i := CHR ''.''])"
  unfolding consistent_def
proof (intro allI impI)
  fix m assume m: "m < length (a[i := CHR ''.''])" and nd: "a[i := CHR ''.''] ! m \<noteq> CHR ''.''"
  have le: "length a \<le> 81" "length (a[i := CHR ''.'']) \<le> 81" using len by simp_all
  from m nd have mi: "m \<noteq> i" by auto
  then have am: "a[i := CHR ''.''] ! m = a ! m" by simp
  have fm: "free a m (a ! m)" using con m nd am unfolding consistent_def by simp
  show "free (a[i := CHR ''.'']) m (a[i := CHR ''.''] ! m)"
    unfolding free_peer[OF le(2)] am
  proof (intro allI impI)
    fix j assume j: "j < length (a[i := CHR ''.''])" and p: "peer m j"
    show "a[i := CHR ''.''] ! j \<noteq> a ! m"
    proof (cases "j = i")
      case True
      then show ?thesis using j nd am by simp
    next
      case False
      then show ?thesis using fm[unfolded free_peer[OF le(1)]] j p by simp
    qed
  qed
qed

lemma digit_not_comma: "v \<in> set digitChars \<Longrightarrow> v \<noteq> CHR '',''"
  by (auto simp: digitChars_def)

lemma digit_isDigit: "v \<in> set digitChars \<Longrightarrow> isDigit v"
  by (auto simp: digitChars_def isDigit_def)

lemma checkPlacement_arr:
  assumes "i < 81" "v \<in> set digitChars"
  shows "checkPlacement (Arr a) (rowLetters ! (i div 9)) (int (i mod 9) + 1) [v] = Inr (free a i v)"
  using checkPlacement_index[OF assms(1), of "Arr a" a v] digit_not_comma[OF assms(2)] by simp

lemma getNextEmptyCell_rowcol:
  assumes "getNextEmptyCell (Arr a) = Inr (Some e)" "length a \<le> 81"
  shows "row e = rowLetters ! (index e div 9)" "col e = int (index e mod 9) + 1"
proof -
  have "index e < 81" using getNextEmptyCell_Some(1)[OF assms(1)] assms(2) by simp
  from toLetterNumberCoordinate_cell[OF this] getNextEmptyCell_coords(1)[OF assms(1)]
  show "row e = rowLetters ! (index e div 9)" "col e = int (index e mod 9) + 1" by simp_all
qed

lemma possible_free:
  assumes g: "getNextEmptyCell (Arr a) = Inr (Some e)" and len: "length a \<le> 81"
  shows "v \<in> set (possible e) \<longleftrightarrow> v \<in> set digitChars \<and> free a (index e) v"
proof -
  have i: "index e < 81" using getNextEmptyCell_Some(1)[OF g] len by simp
  note rc = getNextEmptyCell_rowcol[OF g len]
  show ?thesis
    unfolding possibleValues_mem[OF getNextEmptyCell_coords(2)[OF g]] rc
    using checkPlacement_arr[OF i, of v a] by auto
qed

lemma finish_consistent:
  assumes "finish a1 i = Inr (res, a')" "length a1 = 81" "consistent a1"
  shows "consistent a'"
  using finish_result(1)[OF assms(1)] consistent_clear[OF assms(2,3)] assms(3) by simp

lemma solve_consistent:
  shows "\<forall>res a'. solve_arr a = Inr (res, a') \<longrightarrow> (length a = 81 \<longrightarrow> consistent a \<longrightarrow> consistent a')"
    and "\<forall>b'. tryValues b r c i vs = Inr b' \<longrightarrow>
           (length b = 81 \<longrightarrow> consistent b \<longrightarrow> i < 81 \<longrightarrow> r = rowLetters ! (i div 9) \<longrightarrow>
            c = int (i mod 9) + 1 \<longrightarrow> set vs \<subseteq> set digitChars \<longrightarrow> consistent b')"
proof (induction a and b r c i vs rule: solve_results_induct)
  case (1 a)
  show ?case by simp
next
  case (2 a e r1 a1 res a')
  show ?case
  proof (intro impI)
    assume len: "length a = 81" and con: "consistent a"
    have "possible e ! 0 \<in> set (possible e)" using 2(2) by simp
    then have "free a (index e) (possible e ! 0)"
      using possible_free[OF 2(1)] len by simp
    then have "consistent (a[index e := possible e ! 0])" by (rule consistent_place[OF len con])
    with 2(4) len have c1: "consistent a1" by simp
    from solve_frame(1)[of "a[index e := possible e ! 0]"] 2(3) len
    have "length a1 = 81" unfolding solveFrame_def by auto
    from finish_consistent[OF 2(5) this c1] show "consistent a'" .
  qed
next
  case (3 a e a1 res a')
  show ?case
  proof (intro impI)
    assume len: "length a = 81" and con: "consistent a"
    note gs = getNextEmptyCell_Some[OF 3(1)]
    have le: "length a \<le> 81" using len by simp
    have c1: "consistent a1"
      using 3(4) len con gs(1,4) getNextEmptyCell_rowcol[OF 3(1) le] by simp
    from solve_frame(2)[of a "row e" "col e" "index e" "possible e"] 3(3) gs(1,4) len
    have "length a1 = 81" unfolding tryFrame_def by auto
    from finish_consistent[OF 3(5) this c1] show "consistent a'" .
  qed
next
  case (4 a r c i)
  show ?case by simp
next
  case (5 a r c i v vs a')
  then show ?case by simp
next
  case (6 a r c i v vs r1 a1 a')
  show ?case
  proof (intro impI)
    assume len: "length a = 81" and con: "consistent a" and i: "i < 81"
      and r: "r = rowLetters ! (i div 9)" and c: "c = int (i mod 9) + 1"
      and vs: "set (v # vs) \<subseteq> set digitChars"
    then have v: "v \<in> set digitChars" by simp
    from 6(1) have "free a i v" unfolding r c checkPlacement_arr[OF i v] by simp
    then have "consistent (a[i := v])" by (rule consistent_place[OF len con])
    with 6(3) len have c1: "consistent a1" by simp
    from solve_frame(1)[of "a[i := v]"] 6(2) len
    have "length a1 = 81" unfolding solveFrame_def by auto
    with 6(5) c1 i r c vs show "consistent a'" by simp
  qed
qed

lemma solution_shape:
  assumes "solve (Str x) True = Inr (Solution s, a)"
  shows "a = s" "length s = 81" "CHR ''.'' \<notin> set s" "\<forall>j < 81. isDigit (s ! j)"
    "ok (validate (Str s))"
proof -
  note st = solve_string[OF assms]
  from st(1) have len: "length x = 81" and chars: "list_all (\<lambda>c. c = CHR ''.'' \<or> isDigit c) x"
    unfolding validate_ok by simp_all
  from solve_frame(1)[of x] st(2) have fr: "solveFrame x (Solution s) a" by blast
  then show sa: "a = s" and nodot: "CHR ''.'' \<notin> set s" and la: "length s = 81"
    unfolding solveFrame_def using len by (auto split: if_splits)
  from fr have cells: "\<forall>j < length x. a ! j = x ! j \<or> a ! j \<in> set digitChars"
    unfolding solveFrame_def by simp
  show dig: "\<forall>j < 81. isDigit (s ! j)"
  proof (intro allI impI)
    fix j :: nat assume j: "j < 81"
    then have "s ! j = x ! j \<or> s ! j \<in> set digitChars" using cells len sa by simp
    moreover have "x ! j = CHR ''.'' \<or> isDigit (x ! j)"
      using chars j len by (simp add: list_all_length)
    moreover have "s ! j \<noteq> CHR ''.''" using nodot la j nth_mem[of j s] by metis
    ultimately show "isDigit (s ! j)" using digit_isDigit by auto
  qed
  then have "list_all (\<lambda>c. c = CHR ''.'' \<or> isDigit c) s"
    unfolding list_all_length using la by simp
  with la show "ok (validate (Str s))" unfolding validate_ok by simp
qed

text \<open>
  Claim C1, as stated, fails: \<open>solve\<close> never checks the cells that the puzzle string
  already fills. A string of 81 ones has no empty cell, so it is returned as the solution,
  and \<open>checkSolve\<close> reports the conflicts of its first cell.
\<close>

theorem solve_output_checks_counterexample:
  "solve (Str ''111111111111111111111111111111111111111111111111111111111111111111111111111111111'') True
     = Inr (Solution ''111111111111111111111111111111111111111111111111111111111111111111111111111111111'',
            ''111111111111111111111111111111111111111111111111111111111111111111111111111111111'') \<and>
   checkSolve ''111111111111111111111111111111111111111111111111111111111111111111111111111111111''
     = Inr \<lparr>solved = False,
            error = Some (''Cell '' @ [CHR 0x27] @ ''A1'' @ [CHR 0x27] @ '' contains conflicts.''),
            conflict = Some [''row'', ''column'', ''region'']\<rparr>"
  by code_simp

text \<open>
  Claim C1, amended. For every puzzle string in which every filled cell passes the row,
  column and region checks for its own character, if \<open>solve\<close> returns a solution then
  \<open>checkSolve\<close> of that solution answers solved, with no error and no conflict list.
\<close>

theorem solve_output_checks:
  assumes "solve (Str x) True = Inr (Solution s, a)" and "givensPass x"
  shows "checkSolve s = Inr \<lparr>solved = True, error = None, conflict = None\<rparr>"
proof -
  note st = solve_string[OF assms(1)]
  note sh = solution_shape[OF assms(1)]
  from st(1) have len: "length x = 81" unfolding validate_ok by simp
  have "consistent x"
    unfolding consistent_def
  proof (intro allI impI)
    fix i assume i: "i < length x" "x ! i \<noteq> CHR ''.''"
    then have "cellPasses x i" using assms(2) len unfolding givensPass_def list_all_iff by auto
    then show "free x i (x ! i)" using i len by (simp add: cellPasses_free)
  qed
  with solve_consistent(1)[of x] st(2) len sh(1) have con: "consistent s" by blast
  have "\<forall>i \<in> set [0..<length s]. i < 81 \<and> i < length s \<and> isDigit (s ! i) \<and> cellPasses s i"
  proof
    fix i assume "i \<in> set [0..<length s]"
    then have i: "i < 81" using sh(2) by simp
    then have d: "isDigit (s ! i)" using sh(4) by simp
    then have "s ! i \<noteq> CHR ''.''" by (rule isDigit_not_dot)
    then have "free s i (s ! i)" using con i sh(2) unfolding consistent_def by simp
    then show "i < 81 \<and> i < length s \<and> isDigit (s ! i) \<and> cellPasses s i"
      using i d sh(2) by (simp add: cellPasses_free)
  qed
  then have "checkSolveLoop s [0..<length s] = Inr \<lparr>solved = True, error = None, conflict = None\<rparr>"
    by (rule checkSolveLoop_all_pass)
  then show ?thesis using sh(5) unfolding checkSolve_def Let_def by simp
qed

theorem solve_output_checks_witness:
  "solve (Str ''..92354188514963724321789561745692833958.276162871354928365719451692483794738162.'') True
     = Inr (Solution ''769235418851496372432178956174569283395842761628713549283657194516924837947381625'',
            ''769235418851496372432178956174569283395842761628713549283657194516924837947381625'') \<and>
   givensPass ''..92354188514963724321789561745692833958.276162871354928365719451692483794738162.'' \<and>
   checkSolve ''769235418851496372432178956174569283395842761628713549283657194516924837947381625''
     = Inr \<lparr>solved = True, error = None, conflict = None\<rparr>"
proof -
  have h1: "solve (Str ''..92354188514963724321789561745692833958.276162871354928365719451692483794738162.'') True
     = Inr (Solution ''769235418851496372432178956174569283395842761628713549283657194516924837947381625'',
            ''769235418851496372432178956174569283395842761628713549283657194516924837947381625'')"
    by code_simp
  have h2: "givensPass ''..92354188514963724321789561745692833958.276162871354928365719451692483794738162.''"
    by code_simp
  from solve_output_checks[OF h1 h2] h1 h2 show ?thesis by simp
qed

section \<open>The solver finds a solution where there is one\<close>















section \<open>Generated puzzles\<close>










end
